theory Spec2Isabelle
  imports Main
begin

section \<open>Values, events and sessions\<close>

text \<open>
  The programs exchange JSON-like Python values: event payloads, search results and the
  decoded body of an HTTP response. Floating point numbers do not occur in the code paths
  modelled here and are left out.
\<close>

datatype json =
    JNull
  | JBool bool
  | JNum int
  | JStr string
  | JList "json list"
  | JObj "(string \<times> json) list"

text \<open>
  An event is the dictionary \<^verbatim>\<open>{"type": ..., "data": ...}\<close> of \<^verbatim>\<open>main.py\<close>; the
  variants \<^verbatim>\<open>main_backup.py\<close> and \<^verbatim>\<open>main_o3.py\<close> call the second key
  \<^verbatim>\<open>"payload"\<close>. A session is the dictionary
  \<^verbatim>\<open>{"events": [], "status": "active"}\<close> stored in \<^verbatim>\<open>active_sessions\<close>.
\<close>

record event =
  etype :: string
  payload :: json

record session =
  events :: "event list"
  status :: string

definition new_session :: session where
  "new_session = \<lparr>events = [], status = ''active''\<rparr>"

section \<open>The event-stream relay\<close>

text \<open>
  A forwarded server-sent event: the event name and the value that is serialised into the
  \<^verbatim>\<open>data:\<close> line. The rendering to text (\<^verbatim>\<open>json.dumps\<close>, \<^verbatim>\<open>str\<close>) is not modelled.
  Every yield of a generator is recorded together with the log position it read, so that
  the trace says which position of the log each forwarded message came from.
\<close>

datatype wire = Wire string json

definition wire_of :: "event \<Rightarrow> wire" where
  "wire_of e = Wire (etype e) (payload e)"

record 'p relay =
  last_event_index :: nat
  pc :: 'p
  sent :: "(nat \<times> wire) list"

text \<open>
  The session object lives on the heap; \<open>registered\<close> says whether
  \<^verbatim>\<open>session_id in active_sessions\<close> holds. The generator keeps aliases
  (\<^verbatim>\<open>session\<close>, \<^verbatim>\<open>events\<close>) to the same object while it is suspended, so it reads
  \<open>sess\<close> directly once it is inside the loop body.
\<close>

record 'p sys =
  registered :: bool
  sess :: session
  rel :: "'p relay"

text \<open>
  What the rest of the process does to a session between two resumptions of the generator:
  the orchestrator creates the session when it is absent, appends events and finally marks
  it completed. \<open>Resume d\<close> runs the generator from its suspension point to the next
  one; \<open>d\<close> is the answer of \<^verbatim>\<open>request.is_disconnected()\<close> (only \<^verbatim>\<open>main.py\<close> asks).
\<close>

datatype action = Create | Append event | MarkCompleted | Resume bool

definition env_create :: "'p sys \<Rightarrow> 'p sys" where
  "env_create s = (if registered s then s else s\<lparr>registered := True, sess := new_session\<rparr>)"

definition env_append :: "event \<Rightarrow> 'p sys \<Rightarrow> 'p sys" where
  "env_append e s =
     (if registered s then s\<lparr>sess := (sess s)\<lparr>events := events (sess s) @ [e]\<rparr>\<rparr> else s)"

definition env_complete :: "'p sys \<Rightarrow> 'p sys" where
  "env_complete s =
     (if registered s then s\<lparr>sess := (sess s)\<lparr>status := ''completed''\<rparr>\<rparr> else s)"

subsection \<open>\<^verbatim>\<open>main.py\<close>: \<^verbatim>\<open>stream_events.event_generator\<close>\<close>

text \<open>
  The generator is suspended either in \<^verbatim>\<open>asyncio.sleep\<close> (or before its first
  iteration), or at a \<^verbatim>\<open>yield\<close> inside the \<^verbatim>\<open>for i in range(last_event_index, len(events))\<close>
  loop. \<open>AtYield i n brk\<close>: the loop variable is \<open>i\<close>, the bound of the range, computed
  when the loop started, is \<open>n\<close>, and \<open>brk\<close> says that a \<^verbatim>\<open>break\<close> follows the yield.
\<close>

datatype pc = AtSleep | AtYield nat nat bool | Finished | Raised

datatype scan_result = LoopEnd | Yield nat wire bool | IndexError

function scan :: "event list \<Rightarrow> nat \<Rightarrow> nat \<Rightarrow> scan_result" where
  "scan evs i n =
     (if n \<le> i then LoopEnd
      else if length evs \<le> i then IndexError
      else
        let event = evs ! i; event_type = etype event; event_data = payload event in
        if event_data = JNull \<or> event_data = JStr [] then scan evs (Suc i) n
        else if event_type = ''thinking'' then Yield i (Wire ''thinking'' event_data) False
        else if event_type = ''search'' then Yield i (Wire ''search'' event_data) False
        else if event_type = ''done'' then Yield i (Wire ''done'' event_data) True
        else if event_type = ''error'' then Yield i (Wire ''error'' event_data) True
        else scan evs (Suc i) n)"
  by pat_completeness auto
termination
  by (relation "measure (\<lambda>(evs, i, n). n - i)") auto

declare scan.simps [simp del]

definition after_loop :: "session \<Rightarrow> pc relay \<Rightarrow> pc relay" where
  "after_loop s r =
     r\<lparr>last_event_index := length (events s),
       pc := (if status s = ''completed'' then Finished else AtSleep)\<rparr>"

definition for_loop :: "session \<Rightarrow> pc relay \<Rightarrow> nat \<Rightarrow> nat \<Rightarrow> pc relay" where
  "for_loop s r i n =
     (case scan (events s) i n of
        LoopEnd \<Rightarrow> after_loop s r
      | Yield j w brk \<Rightarrow> r\<lparr>pc := AtYield j n brk, sent := sent r @ [(j, w)]\<rparr>
      | IndexError \<Rightarrow> r\<lparr>pc := Raised\<rparr>)"

definition event_generator :: "bool \<Rightarrow> pc sys \<Rightarrow> pc relay" where
  "event_generator disconnected s =
     (let r = rel s in
      case pc r of
        Finished \<Rightarrow> r
      | Raised \<Rightarrow> r
      | AtSleep \<Rightarrow>
          if disconnected then r\<lparr>pc := Finished\<rparr>
          else if registered s
            then for_loop (sess s) r (last_event_index r) (length (events (sess s)))
            else r
      | AtYield i n brk \<Rightarrow>
          if brk then after_loop (sess s) r else for_loop (sess s) r (Suc i) n)"

fun step :: "pc sys \<Rightarrow> action \<Rightarrow> pc sys" where
  "step s Create = env_create s"
| "step s (Append e) = env_append e s"
| "step s MarkCompleted = env_complete s"
| "step s (Resume d) = s\<lparr>rel := event_generator d s\<rparr>"

definition init :: "pc sys" where
  "init = \<lparr>registered = False, sess = new_session,
           rel = \<lparr>last_event_index = 0, pc = AtSleep, sent = []\<rparr>\<rparr>"

definition run :: "action list \<Rightarrow> pc sys" where
  "run sch = foldl step init sch"

subsection \<open>\<^verbatim>\<open>main_backup.py\<close>: \<^verbatim>\<open>stream_events.event_generator\<close>\<close>

text \<open>
  Here the inner loop is \<^verbatim>\<open>while last_event_index < len(events)\<close>: the length is read
  again after every yield and the index advances by one.
\<close>

datatype bpc = BSleep | BYield | BFinished

definition while_loop :: "session \<Rightarrow> bpc relay \<Rightarrow> bpc relay" where
  "while_loop s r =
     (if last_event_index r < length (events s) then
        let event = events s ! last_event_index r in
        r\<lparr>pc := BYield,
          sent := sent r @ [(last_event_index r, Wire (etype event) (payload event))]\<rparr>
      else r\<lparr>pc := (if status s = ''completed'' then BFinished else BSleep)\<rparr>)"

definition event_generator_backup :: "bpc sys \<Rightarrow> bpc relay" where
  "event_generator_backup s =
     (let r = rel s in
      case pc r of
        BFinished \<Rightarrow> r
      | BSleep \<Rightarrow> if registered s then while_loop (sess s) r else r
      | BYield \<Rightarrow> while_loop (sess s) (r\<lparr>last_event_index := Suc (last_event_index r)\<rparr>))"

fun step_backup :: "bpc sys \<Rightarrow> action \<Rightarrow> bpc sys" where
  "step_backup s Create = env_create s"
| "step_backup s (Append e) = env_append e s"
| "step_backup s MarkCompleted = env_complete s"
| "step_backup s (Resume d) = s\<lparr>rel := event_generator_backup s\<rparr>"

definition init_backup :: "bpc sys" where
  "init_backup = \<lparr>registered = False, sess = new_session,
                  rel = \<lparr>last_event_index = 0, pc = BSleep, sent = []\<rparr>\<rparr>"

definition run_backup :: "action list \<Rightarrow> bpc sys" where
  "run_backup sch = foldl step_backup init_backup sch"

subsection \<open>Invariants of the two generators\<close>

text \<open>
  \<open>positions evs m\<close> is the trace of a generator that has forwarded the first \<open>m\<close>
  entries of the log, one after the other.
\<close>

definition inv :: "pc sys \<Rightarrow> bool" where
  "inv s = (let r = rel s; L = length (events (sess s)) in
      last_event_index r \<le> L \<and>
      (registered s \<or> events (sess s) = []) \<and>
      sorted_wrt (<) (map fst (sent r)) \<and>
      (\<forall>(j, w) \<in> set (sent r). j < L \<and> w = wire_of (events (sess s) ! j)) \<and>
      (case pc r of
         AtYield i n brk \<Rightarrow> last_event_index r \<le> i \<and> i < n \<and> n \<le> L \<and> (\<forall>j \<in> fst ` set (sent r). j \<le> i)
       | _ \<Rightarrow> (\<forall>j \<in> fst ` set (sent r). j < last_event_index r)))"

definition positions :: "event list \<Rightarrow> nat \<Rightarrow> (nat \<times> wire) list" where
  "positions evs m = map (\<lambda>j. (j, wire_of (evs ! j))) [0..<m]"

definition binv :: "bpc sys \<Rightarrow> bool" where
  "binv s = (let r = rel s; L = length (events (sess s)) in
      (registered s \<or> events (sess s) = []) \<and>
      (case pc r of
         BYield \<Rightarrow> last_event_index r < L \<and> sent r = positions (events (sess s)) (Suc (last_event_index r))
       | _ \<Rightarrow> last_event_index r \<le> L \<and> sent r = positions (events (sess s)) (last_event_index r)))"

subsection \<open>What a drained log should look like\<close>

text \<open>
  \<open>orderly sch\<close>: no event is appended after the session has been marked completed (the
  discipline of the orchestrators).
\<close>

fun is_append :: "action \<Rightarrow> bool" where
  "is_append (Append e) = True"
| "is_append a = False"

fun orderly :: "action list \<Rightarrow> bool" where
  "orderly [] = True"
| "orderly (MarkCompleted # sch) = list_all (\<lambda>a. \<not> is_append a) sch"
| "orderly (a # sch) = orderly sch"

text \<open>
  The messages one undisturbed poll of the \<^verbatim>\<open>main.py\<close> generator forwards from the
  entries \<open>es\<close> that start at position \<open>i\<close>: entries with empty data or an unknown type are
  passed over, and the poll ends with the first \<^verbatim>\<open>done\<close> or \<^verbatim>\<open>error\<close> entry it forwards.
\<close>

definition passed_over :: "event \<Rightarrow> bool" where
  "passed_over e =
     (payload e = JNull \<or> payload e = JStr [] \<or>
      etype e \<notin> set [''thinking'', ''search'', ''done'', ''error''])"

definition terminal :: "event \<Rightarrow> bool" where
  "terminal e = (etype e = ''done'' \<or> etype e = ''error'')"

fun batch :: "nat \<Rightarrow> event list \<Rightarrow> (nat \<times> wire) list" where
  "batch i [] = []"
| "batch i (e # es) =
     (if passed_over e then batch (Suc i) es
      else if terminal e then [(i, wire_of e)]
      else (i, wire_of e) # batch (Suc i) es)"

text \<open>A log as \<^verbatim>\<open>main.py\<close> leaves it when its handler has run: progress, an error, then the links.\<close>

definition ev_thinking :: event where
  "ev_thinking = \<lparr>etype = ''thinking'', payload = JStr ''Analyzing ''\<rparr>"

definition ev_error :: event where
  "ev_error = \<lparr>etype = ''error'', payload = JStr ''Generation error: boom''\<rparr>"

definition ev_done :: event where
  "ev_done = \<lparr>etype = ''done'', payload = JObj [(''session_id'', JStr ''s1'')]\<rparr>"

text \<open>Auxiliary invariants of the \<^verbatim>\<open>main_backup.py\<close> generator.\<close>

definition binv2 :: "bpc sys \<Rightarrow> bool" where
  "binv2 s = ((registered s \<or> status (sess s) = ''active'') \<and>
     (pc (rel s) \<noteq> BFinished \<or>
        (status (sess s) = ''completed'' \<and> last_event_index (rel s) = length (events (sess s)))))"

definition sealed :: "'p sys \<Rightarrow> bool" where
  "sealed s = (status (sess s) = ''completed'')"

text \<open>Resumptions that remain until the generator stops, once the session is completed.\<close>

definition todo :: "bpc sys \<Rightarrow> nat" where
  "todo s = (case pc (rel s) of
      BSleep \<Rightarrow> Suc (length (events (sess s)) - last_event_index (rel s))
    | BYield \<Rightarrow> length (events (sess s)) - last_event_index (rel s)
    | BFinished \<Rightarrow> 0)"

text \<open>Where the \<^verbatim>\<open>main.py\<close> generator is after a poll: stopped, or asleep until the next one.\<close>

definition after_poll :: "session \<Rightarrow> pc" where
  "after_poll s = (if status s = ''completed'' then Finished else AtSleep)"

text \<open>
  Three schedules. In the first the log holds the progress, the error and the links when the
  generator of \<^verbatim>\<open>main.py\<close> polls. In the second an event is appended while that
  generator is suspended at a \<^verbatim>\<open>yield\<close>. The third interleaves appends and resumptions
  and leaves the session completed.
\<close>

definition schedule_error_then_done :: "action list" where
  "schedule_error_then_done =
     [Create, Append ev_thinking, Append ev_error, Append ev_done, MarkCompleted,
      Resume False, Resume False, Resume False]"

definition schedule_append_during_yield :: "action list" where
  "schedule_append_during_yield =
     [Create, Append ev_thinking, Append ev_thinking, Resume False, Append ev_thinking,
      Resume False, Resume False, Append ev_done, MarkCompleted, Resume False, Resume False]"

definition schedule_interleaved :: "action list" where
  "schedule_interleaved =
     [Resume False, Create, Append ev_thinking, Resume False, Append ev_thinking, Append ev_error,
      Resume False, Append ev_done, MarkCompleted]"

definition schedule_batch :: "action list" where
  "schedule_batch = [Create, Append ev_thinking, Append ev_error, Append ev_done, MarkCompleted]"

section \<open>Web search\<close>

text \<open>
  What the HTTP request of \<^verbatim>\<open>web_search\<close> can come back with: the client raises
  while connecting or sending (\<^verbatim>\<open>client.get\<close>), \<^verbatim>\<open>raise_for_status\<close> raises,
  \<^verbatim>\<open>response.json()\<close> raises, or a decoded body is available. The string is
  \<^verbatim>\<open>str(e)\<close> of the exception.
\<close>

datatype http_outcome =
    ClientError string
  | StatusError string
  | DecodeError string
  | Body json

text \<open>A search result is a Python dictionary with three keys.\<close>

type_synonym result = "(string \<times> json) list"

definition dict_get :: "(string \<times> json) list \<Rightarrow> string \<Rightarrow> json \<Rightarrow> json" where
  "dict_get d k dflt = (case map_of d k of None \<Rightarrow> dflt | Some v \<Rightarrow> v)"

fun type_name :: "json \<Rightarrow> string" where
  "type_name JNull = ''NoneType''"
| "type_name (JBool b) = ''bool''"
| "type_name (JNum n) = ''int''"
| "type_name (JStr s) = ''str''"
| "type_name (JList xs) = ''list''"
| "type_name (JObj d) = ''dict''"

text \<open>
  \<^verbatim>\<open>x.get\<close> on a value that is not a dictionary raises \<^verbatim>\<open>AttributeError\<close>;
  a \<^verbatim>\<open>for\<close> loop over a value that is not iterable raises \<^verbatim>\<open>TypeError\<close>.
\<close>

definition no_attribute_get :: "json \<Rightarrow> string" where
  "no_attribute_get v = [CHR 0x27] @ type_name v @ [CHR 0x27] @ '' object has no attribute '' @
     [CHR 0x27] @ ''get'' @ [CHR 0x27]"

definition not_iterable :: "json \<Rightarrow> string" where
  "not_iterable v = [CHR 0x27] @ type_name v @ [CHR 0x27] @ '' object is not iterable''"

text \<open>
  What \<^verbatim>\<open>for item in items\<close> iterates over: the elements of a list, the
  one-character strings of a string, the keys of a dictionary.
\<close>

fun iterate :: "json \<Rightarrow> string + json list" where
  "iterate (JList xs) = Inr xs"
| "iterate (JStr s) = Inr (map (\<lambda>c. JStr [c]) s)"
| "iterate (JObj d) = Inr (map (\<lambda>(k, v). JStr k) d)"
| "iterate v = Inl (not_iterable v)"

subsection \<open>\<^verbatim>\<open>ai_utils.py\<close>: \<^verbatim>\<open>web_search\<close>\<close>

fun collect_results :: "string \<Rightarrow> json list \<Rightarrow> result list \<Rightarrow> string + result list" where
  "collect_results url_key [] results = Inr results"
| "collect_results url_key (JObj item # items) results =
     collect_results url_key items
       (results @ [[(''title'', dict_get item ''title'' (JStr [])),
                    (url_key, dict_get item ''link'' (JStr [])),
                    (''snippet'', dict_get item ''snippet'' (JStr []))]])"
| "collect_results url_key (item # items) results = Inl (no_attribute_get item)"

text \<open>The body of the \<^verbatim>\<open>try\<close> block; \<open>Inl\<close> is an exception raised inside it.\<close>

definition search_body ::
    "string \<Rightarrow> (string \<Rightarrow> int \<Rightarrow> http_outcome) \<Rightarrow> string \<Rightarrow> int \<Rightarrow> string + result list" where
  "search_body url_key http query num =
     (case http query num of
        ClientError e \<Rightarrow> Inl e
      | StatusError e \<Rightarrow> Inl e
      | DecodeError e \<Rightarrow> Inl e
      | Body data \<Rightarrow>
          (case data of
             JObj d \<Rightarrow>
               (case iterate (dict_get d ''items'' (JList [])) of
                  Inl e \<Rightarrow> Inl e
                | Inr items \<Rightarrow> collect_results url_key items [])
           | _ \<Rightarrow> Inl (no_attribute_get data)))"

definition search_error :: "string \<Rightarrow> string \<Rightarrow> result" where
  "search_error url_key e =
     [(''title'', JStr (''Search Error: '' @ e)), (url_key, JStr []), (''snippet'', JStr [])]"

text \<open>
  The function itself: \<open>Inl\<close> would be an exception leaving \<^verbatim>\<open>web_search\<close>,
  \<open>Inr\<close> is the returned list. The request asks for \<^verbatim>\<open>min(k, 10)\<close> results.
\<close>

definition web_search ::
    "(string \<Rightarrow> int \<Rightarrow> http_outcome) \<Rightarrow> string \<Rightarrow> int \<Rightarrow> string + result list" where
  "web_search http query k =
     (case search_body ''url'' http query (min k 10) of
        Inr results \<Rightarrow> Inr results
      | Inl e \<Rightarrow> Inr [search_error ''url'' e])"

subsection \<open>\<^verbatim>\<open>main_o3.py\<close>: \<^verbatim>\<open>web_search\<close>\<close>

text \<open>
  The variant stores the address under the key \<^verbatim>\<open>"link"\<close> and passes \<^verbatim>\<open>k\<close>
  unchanged.
\<close>

definition web_search_o3 ::
    "(string \<Rightarrow> int \<Rightarrow> http_outcome) \<Rightarrow> string \<Rightarrow> int \<Rightarrow> string + result list" where
  "web_search_o3 http query k =
     (case search_body ''link'' http query k of
        Inr results \<Rightarrow> Inr results
      | Inl e \<Rightarrow> Inr [search_error ''link'' e])"

text \<open>Two concrete providers: one that refuses the connection, one that answers.\<close>

definition http_refused :: "string \<Rightarrow> int \<Rightarrow> http_outcome" where
  "http_refused query num = ClientError ''All connection attempts failed''"

definition http_one_hit :: "string \<Rightarrow> int \<Rightarrow> http_outcome" where
  "http_one_hit query num =
     Body (JObj [(''items'', JList [JObj [(''title'', JStr ''United States v. Brooker''),
                                          (''link'', JStr ''https://example.org/brooker''),
                                          (''snippet'', JStr ''976 F.3d 228'')]])])"

section \<open>Python strings and regular expressions\<close>

text \<open>
  A Python string is modelled as a \<^typ>\<open>string\<close>: a character is a code point below 256.
  On this range \<^verbatim>\<open>str.isspace\<close> and the class \<^verbatim>\<open>\s\<close> hold of the code points
  9 to 13, 28 to 32, 133 and 160, and the only characters that differ from an ASCII letter
  by case are ASCII letters.
\<close>

definition whitespace :: string where
  "whitespace = [CHR 0x09, CHR 0x0A, CHR 0x0B, CHR 0x0C, CHR 0x0D, CHR 0x1C, CHR 0x1D, CHR 0x1E,
                 CHR 0x1F, CHR 0x20, CHR 0x85, CHR 0xA0]"

definition isspace :: "char \<Rightarrow> bool" where
  "isspace c = (c \<in> set whitespace)"

definition strip :: "string \<Rightarrow> string" where
  "strip s = rev (dropWhile isspace (rev (dropWhile isspace s)))"

definition ascii_uppercase :: string where
  "ascii_uppercase = ''ABCDEFGHIJKLMNOPQRSTUVWXYZ''"

definition ascii_lowercase :: string where
  "ascii_lowercase = ''abcdefghijklmnopqrstuvwxyz''"

definition digits :: string where
  "digits = ''0123456789''"

definition lower :: "char \<Rightarrow> char" where
  "lower c = (case map_of (zip ascii_uppercase ascii_lowercase) c of Some l \<Rightarrow> l | None \<Rightarrow> c)"

definition upper :: "char \<Rightarrow> char" where
  "upper c = (case map_of (zip ascii_lowercase ascii_uppercase) c of Some u \<Rightarrow> u | None \<Rightarrow> c)"

text \<open>
  The fragment of \<^verbatim>\<open>re\<close> syntax the programs use. An item of a character class is a
  character, a range (given by the characters in it: \<^verbatim>\<open>0-9\<close> is \<open>Rng digits\<close>) or
  \<^verbatim>\<open>\s\<close>; \<open>Class True\<close> is a negated class \<^verbatim>\<open>[^...]\<close>;
  \<open>Dot\<close> is \<^verbatim>\<open>.\<close> under \<^verbatim>\<open>re.DOTALL\<close>; \<open>Star\<close> and \<open>Opt\<close> are the greedy
  \<^verbatim>\<open>*\<close> and \<^verbatim>\<open>?\<close>, \<open>LazyStar\<close> is \<^verbatim>\<open>*?\<close>.
\<close>

datatype citem = Ch char | Rng string | Space

datatype regex =
    Eps
  | Lit string
  | Class bool "citem list"
  | Dot
  | Seq regex regex
  | Alt regex regex
  | Opt regex
  | Star regex
  | LazyStar regex

definition Plus :: "regex \<Rightarrow> regex" where
  "Plus r = Seq r (Star r)"

text \<open>\<open>ic\<close> is the flag \<^verbatim>\<open>re.IGNORECASE\<close>.\<close>

fun item_match :: "bool \<Rightarrow> citem \<Rightarrow> char \<Rightarrow> bool" where
  "item_match ic (Ch l) c = (if ic then lower c = lower l else c = l)"
| "item_match ic (Rng cs) c =
     (if ic then lower c \<in> set cs \<or> upper c \<in> set cs else c \<in> set cs)"
| "item_match ic Space c = isspace c"

definition class_match :: "bool \<Rightarrow> bool \<Rightarrow> citem list \<Rightarrow> char \<Rightarrow> bool" where
  "class_match ic negated items c = (list_ex (\<lambda>i. item_match ic i c) items \<noteq> negated)"

fun lit_match :: "bool \<Rightarrow> string \<Rightarrow> string \<Rightarrow> string option" where
  "lit_match ic [] s = Some s"
| "lit_match ic (l # ls) [] = None"
| "lit_match ic (l # ls) (c # cs) =
     (if item_match ic (Ch l) c then lit_match ic ls cs else None)"

text \<open>
  The backtracking matcher: \<open>rmatch ic r s\<close> lists, in the order in which the engine
  tries them, the remainders of \<open>s\<close> after each way of matching \<open>r\<close> at its start. A
  repetition stops iterating when an iteration consumes nothing.
\<close>

fun rmatch :: "bool \<Rightarrow> regex \<Rightarrow> string \<Rightarrow> string list" where
  "rmatch ic Eps s = [s]"
| "rmatch ic (Lit w) s = (case lit_match ic w s of None \<Rightarrow> [] | Some s' \<Rightarrow> [s'])"
| "rmatch ic (Class negated items) s =
     (case s of [] \<Rightarrow> [] | c # cs \<Rightarrow> if class_match ic negated items c then [cs] else [])"
| "rmatch ic Dot s = (case s of [] \<Rightarrow> [] | c # cs \<Rightarrow> [cs])"
| "rmatch ic (Seq r1 r2) s = concat (map (\<lambda>s1. rmatch ic r2 s1) (rmatch ic r1 s))"
| "rmatch ic (Alt r1 r2) s = rmatch ic r1 s @ rmatch ic r2 s"
| "rmatch ic (Opt r) s = rmatch ic r s @ [s]"
| "rmatch ic (Star r) s =
     concat (map (\<lambda>s1. if length s1 < length s then rmatch ic (Star r) s1 else [])
                 (rmatch ic r s)) @ [s]"
| "rmatch ic (LazyStar r) s =
     s # concat (map (\<lambda>s1. if length s1 < length s then rmatch ic (LazyStar r) s1 else [])
                     (rmatch ic r s))"

text \<open>
  Every pattern of the programs has exactly one capturing group, in sequence between a
  part before it and a part after it (either may be empty).
\<close>

record pattern =
  before :: regex
  group :: regex
  after :: regex

text \<open>\<open>match_at\<close>: group 1 of the first successful match that starts at the beginning of \<open>s\<close>.\<close>

definition match_at :: "bool \<Rightarrow> pattern \<Rightarrow> string \<Rightarrow> string option" where
  "match_at ic p s =
     (case concat (map (\<lambda>s1. concat (map (\<lambda>s2. map (\<lambda>s3. take (length s1 - length s2) s1)
                                                    (rmatch ic (after p) s2))
                                        (rmatch ic (group p) s1)))
                       (rmatch ic (before p) s)) of
        [] \<Rightarrow> None
      | g # gs \<Rightarrow> Some g)"

text \<open>\<^verbatim>\<open>re.search\<close>: the leftmost start position with a match; its group 1.\<close>

fun re_search :: "bool \<Rightarrow> pattern \<Rightarrow> string \<Rightarrow> string option" where
  "re_search ic p [] = match_at ic p []"
| "re_search ic p (c # cs) =
     (case match_at ic p (c # cs) of Some g \<Rightarrow> Some g | None \<Rightarrow> re_search ic p cs)"

section \<open>The field parser\<close>

text \<open>The class \<^verbatim>\<open>DefendantInfo\<close>; its constructor sets every attribute to the sentinel.\<close>

record DefendantInfo =
  name :: string
  case_number :: string
  district :: string
  sentence_months :: string
  months_served :: string
  credits_lost :: string
  original_release_date :: string
  new_release_date :: string

definition DefendantInfo_init :: DefendantInfo where
  "DefendantInfo_init =
     \<lparr>name = ''UNKNOWN'', case_number = ''UNKNOWN'', district = ''UNKNOWN'',
      sentence_months = ''UNKNOWN'', months_served = ''UNKNOWN'', credits_lost = ''UNKNOWN'',
      original_release_date = ''UNKNOWN'', new_release_date = ''UNKNOWN''\<rparr>"

text \<open>
  \<^verbatim>\<open>setattr(info, field, value)\<close> for the attribute names that occur as keys of the
  pattern tables.
\<close>

definition setattr :: "DefendantInfo \<Rightarrow> string \<Rightarrow> string \<Rightarrow> DefendantInfo" where
  "setattr info field v =
     (if field = ''name'' then info\<lparr>name := v\<rparr>
      else if field = ''case_number'' then info\<lparr>case_number := v\<rparr>
      else if field = ''district'' then info\<lparr>district := v\<rparr>
      else if field = ''sentence_months'' then info\<lparr>sentence_months := v\<rparr>
      else if field = ''months_served'' then info\<lparr>months_served := v\<rparr>
      else if field = ''credits_lost'' then info\<lparr>credits_lost := v\<rparr>
      else if field = ''original_release_date'' then info\<lparr>original_release_date := v\<rparr>
      else if field = ''new_release_date'' then info\<lparr>new_release_date := v\<rparr>
      else info)"

subsection \<open>The patterns\<close>

definition ws :: regex where
  "ws = Class False [Space]"

definition digit :: regex where
  "digit = Class False [Rng digits]"

definition colon_or_space :: regex where
  "colon_or_space = Class False [Ch CHR '':'', Space]"

definition dot_or_colon :: regex where
  "dot_or_colon = Class False [Ch CHR ''.'', Ch CHR '':'']"

text \<open>\<^verbatim>\<open>[A-Z][a-z]+(?:\s+[A-Z][a-z]+)*\<close>\<close>

definition capitalised_words :: regex where
  "capitalised_words =
     Seq (Class False [Rng ascii_uppercase])
       (Seq (Plus (Class False [Rng ascii_lowercase]))
          (Star (Seq (Plus ws)
             (Seq (Class False [Rng ascii_uppercase])
                  (Plus (Class False [Rng ascii_lowercase]))))))"

text \<open>\<^verbatim>\<open>[0-9]{1,2}:[0-9]{2}[-cr]+[0-9]+\<close>\<close>

definition case_no :: regex where
  "case_no =
     Seq (Seq digit (Opt digit))
       (Seq (Lit '':'')
          (Seq (Seq digit digit)
             (Seq (Plus (Class False [Ch CHR ''-'', Ch CHR ''c'', Ch CHR ''r'']))
                  (Plus digit))))"

text \<open>\<^verbatim>\<open>[0-9]{1,2}\/[0-9]{1,2}\/[0-9]{4}\<close>\<close>

definition date :: regex where
  "date =
     Seq (Seq digit (Opt digit))
       (Seq (Lit ''/'')
          (Seq (Seq digit (Opt digit))
             (Seq (Lit ''/'') (Seq digit (Seq digit (Seq digit digit))))))"

text \<open>\<^verbatim>\<open>(?:days?|months?)\<close>\<close>

definition days_or_months :: regex where
  "days_or_months = Alt (Seq (Lit ''day'') (Opt (Lit ''s''))) (Seq (Lit ''month'') (Opt (Lit ''s'')))"

definition name_defendant :: pattern where
  "name_defendant =
     \<lparr>before = Seq (Alt (Lit ''defendant'') (Lit ''respondent'')) (Star colon_or_space),
      group = capitalised_words, after = Eps\<rparr>"

definition name_united_states :: pattern where
  "name_united_states =
     \<lparr>before = Seq (Lit ''United States v.'') (Star ws), group = capitalised_words, after = Eps\<rparr>"

definition name_usa :: pattern where
  "name_usa = \<lparr>before = Seq (Lit ''USA v.'') (Star ws), group = capitalised_words, after = Eps\<rparr>"

definition case_labelled :: pattern where
  "case_labelled =
     \<lparr>before = Seq (Lit ''case'') (Seq (Plus ws) (Seq (Alt (Lit ''no'') (Lit ''number''))
                 (Seq (Opt dot_or_colon) (Star ws)))),
      group = case_no, after = Eps\<rparr>"

definition case_criminal :: pattern where
  "case_criminal =
     \<lparr>before = Seq (Lit ''criminal'') (Seq (Plus ws) (Seq (Lit ''no'')
                 (Seq (Opt dot_or_colon) (Star ws)))),
      group = case_no, after = Eps\<rparr>"

definition case_bare :: pattern where
  "case_bare = \<lparr>before = Eps, group = case_no, after = Eps\<rparr>"

definition district_court :: pattern where
  "district_court =
     \<lparr>before = Seq (Opt (Lit ''United States '')) (Seq (Lit ''District Court for the'') (Plus ws)),
      group = Plus (Class True [Ch CHR '','', Ch CHR 0x0A]), after = Eps\<rparr>"

definition district_usdc :: pattern where
  "district_usdc = \<lparr>before = Seq (Lit ''USDC'') (Plus ws), group = capitalised_words, after = Eps\<rparr>"

definition district_of :: pattern where
  "district_of =
     \<lparr>before = Seq (Lit ''District of'') (Plus ws), group = capitalised_words, after = Eps\<rparr>"

definition sentenced_to :: pattern where
  "sentenced_to =
     \<lparr>before = Seq (Lit ''sentenced to'') (Plus ws), group = Plus digit,
      after = Seq (Star ws) (Lit ''months'')\<rparr>"

definition term_of :: pattern where
  "term_of =
     \<lparr>before = Seq (Lit ''term of'') (Plus ws), group = Plus digit,
      after = Seq (Star ws) (Lit ''months'')\<rparr>"

definition months_imprisonment :: pattern where
  "months_imprisonment =
     \<lparr>before = Eps, group = Plus digit,
      after = Seq (Star ws) (Seq (Lit ''month'') (Seq (Opt (Lit ''s''))
                (Seq (Plus ws) (Alt (Lit ''imprisonment'') (Lit ''custody'')))))\<rparr>"

definition served_months :: pattern where
  "served_months =
     \<lparr>before = Seq (Lit ''served'') (Plus ws), group = Plus digit,
      after = Seq (Star ws) (Lit ''months'')\<rparr>"

definition time_served :: pattern where
  "time_served =
     \<lparr>before = Seq (Lit ''time served'') (Star colon_or_space), group = Plus digit,
      after = Seq (Star ws) (Lit ''months'')\<rparr>"

definition months_served_after :: pattern where
  "months_served_after =
     \<lparr>before = Eps, group = Plus digit,
      after = Seq (Star ws) (Seq (Lit ''month'') (Seq (Opt (Lit ''s''))
                (Seq (Plus ws) (Lit ''served''))))\<rparr>"

definition lost_credit :: pattern where
  "lost_credit =
     \<lparr>before = Seq (Lit ''lost'') (Plus ws), group = Plus digit,
      after = Seq (Star ws) (Seq days_or_months (Seq (Plus ws)
                (Seq (Opt (Seq (Lit ''of'') (Plus ws)))
                     (Alt (Seq (Lit ''good'') (Seq (Plus ws) (Lit ''time''))) (Lit ''credit'')))))\<rparr>"

definition credits_lost_labelled :: pattern where
  "credits_lost_labelled =
     \<lparr>before = Seq (Lit ''credit'') (Seq (Opt (Lit ''s'')) (Seq (Plus ws)
                 (Seq (Lit ''lost'') (Star colon_or_space)))),
      group = Plus digit, after = Eps\<rparr>"

definition time_lost :: pattern where
  "time_lost =
     \<lparr>before = Eps, group = Plus digit,
      after = Seq (Star ws) (Seq days_or_months (Seq (Plus ws)
                (Seq (Opt (Seq (Lit ''good'') (Seq (Plus ws) (Seq (Lit ''time'') (Plus ws)))))
                     (Lit ''lost''))))\<rparr>"

definition original_release :: pattern where
  "original_release =
     \<lparr>before = Seq (Lit ''original'') (Seq (Plus ws) (Seq (Lit ''release'') (Seq (Plus ws)
                 (Seq (Lit ''date'') (Star colon_or_space))))),
      group = date, after = Eps\<rparr>"

definition scheduled_release :: pattern where
  "scheduled_release =
     \<lparr>before = Seq (Lit ''scheduled'') (Seq (Plus ws) (Seq (Lit ''release'') (Star colon_or_space))),
      group = date, after = Eps\<rparr>"

definition release_date :: pattern where
  "release_date =
     \<lparr>before = Seq (Lit ''release'') (Seq (Plus ws) (Seq (Lit ''date'') (Star colon_or_space))),
      group = date, after = Eps\<rparr>"

definition new_release :: pattern where
  "new_release =
     \<lparr>before = Seq (Lit ''new'') (Seq (Plus ws) (Seq (Lit ''release'') (Seq (Plus ws)
                 (Seq (Lit ''date'') (Star colon_or_space))))),
      group = date, after = Eps\<rparr>"

definition revised_release :: pattern where
  "revised_release =
     \<lparr>before = Seq (Lit ''revised'') (Seq (Plus ws) (Seq (Lit ''release'') (Star colon_or_space))),
      group = date, after = Eps\<rparr>"

definition projected_release :: pattern where
  "projected_release =
     \<lparr>before = Seq (Lit ''projected'') (Seq (Plus ws) (Seq (Lit ''release'') (Star colon_or_space))),
      group = date, after = Eps\<rparr>"

text \<open>
  The dictionary \<^verbatim>\<open>patterns\<close>, in insertion order, of \<^verbatim>\<open>main.py\<close> (and
  \<^verbatim>\<open>main_o3.py\<close>), of \<^verbatim>\<open>main_backup.py\<close> and of \<^verbatim>\<open>main_enhanced.py\<close>.
\<close>

definition patterns :: "(string \<times> pattern list) list" where
  "patterns =
     [(''name'', [name_defendant, name_united_states, name_usa]),
      (''case_number'', [case_labelled, case_bare]),
      (''district'', [district_court, district_of])]"

definition patterns_backup :: "(string \<times> pattern list) list" where
  "patterns_backup =
     [(''name'', [name_defendant, name_united_states, name_usa]),
      (''case_number'', [case_labelled, case_bare]),
      (''district'', [district_court, district_of]),
      (''sentence_months'', [sentenced_to, months_imprisonment]),
      (''months_served'', [served_months, months_served_after]),
      (''credits_lost'', [lost_credit, time_lost]),
      (''original_release_date'', [original_release, release_date]),
      (''new_release_date'', [new_release, projected_release])]"

definition patterns_enhanced :: "(string \<times> pattern list) list" where
  "patterns_enhanced =
     [(''name'', [name_defendant, name_united_states, name_usa]),
      (''case_number'', [case_labelled, case_criminal, case_bare]),
      (''district'', [district_court, district_usdc, district_of]),
      (''sentence_months'', [sentenced_to, term_of, months_imprisonment]),
      (''months_served'', [served_months, time_served, months_served_after]),
      (''credits_lost'', [lost_credit, credits_lost_labelled, time_lost]),
      (''original_release_date'', [original_release, scheduled_release, release_date]),
      (''new_release_date'', [new_release, revised_release, projected_release])]"

subsection \<open>\<^verbatim>\<open>parse_defendant_info\<close>\<close>

text \<open>
  The inner loop \<^verbatim>\<open>for pattern in field_patterns\<close>: the first pattern that
  \<^verbatim>\<open>re.search\<close> finds (with \<^verbatim>\<open>re.IGNORECASE\<close>) sets the attribute and breaks.
\<close>

fun field_loop :: "DefendantInfo \<Rightarrow> string \<Rightarrow> pattern list \<Rightarrow> string \<Rightarrow> DefendantInfo" where
  "field_loop info field [] text = info"
| "field_loop info field (pattern # field_patterns) text =
     (case re_search True pattern text of
        Some g \<Rightarrow> setattr info field (strip g)
      | None \<Rightarrow> field_loop info field field_patterns text)"

text \<open>The outer loop \<^verbatim>\<open>for field, field_patterns in patterns.items()\<close>.\<close>

fun items_loop :: "DefendantInfo \<Rightarrow> (string \<times> pattern list) list \<Rightarrow> string \<Rightarrow> DefendantInfo" where
  "items_loop info [] text = info"
| "items_loop info ((field, field_patterns) # items) text =
     items_loop (field_loop info field field_patterns text) items text"

definition parse_defendant_info :: "string \<Rightarrow> DefendantInfo" where
  "parse_defendant_info text = items_loop DefendantInfo_init patterns text"

definition parse_defendant_info_backup :: "string \<Rightarrow> DefendantInfo" where
  "parse_defendant_info_backup text = items_loop DefendantInfo_init patterns_backup text"

definition parse_defendant_info_enhanced :: "string \<Rightarrow> DefendantInfo" where
  "parse_defendant_info_enhanced text = items_loop DefendantInfo_init patterns_enhanced text"

text \<open>
  The contract in the words of the specification: a field holds the stripped group of the
  first pattern of its list that matches anywhere in the text, or the sentinel.
\<close>

definition first_match_or_unknown :: "pattern list \<Rightarrow> string \<Rightarrow> string" where
  "first_match_or_unknown field_patterns text =
     (case List.find (\<lambda>p. re_search True p text \<noteq> None) field_patterns of
        None \<Rightarrow> ''UNKNOWN''
      | Some p \<Rightarrow> (case re_search True p text of None \<Rightarrow> ''UNKNOWN'' | Some g \<Rightarrow> strip g))"

definition field_patterns_of :: "(string \<times> pattern list) list \<Rightarrow> string \<Rightarrow> pattern list" where
  "field_patterns_of table field = (case map_of table field of None \<Rightarrow> [] | Some ps \<Rightarrow> ps)"

text \<open>Reading an attribute by its name.\<close>

definition getattr :: "DefendantInfo \<Rightarrow> string \<Rightarrow> string" where
  "getattr info field =
     (if field = ''name'' then name info
      else if field = ''case_number'' then case_number info
      else if field = ''district'' then district info
      else if field = ''sentence_months'' then sentence_months info
      else if field = ''months_served'' then months_served info
      else if field = ''credits_lost'' then credits_lost info
      else if field = ''original_release_date'' then original_release_date info
      else if field = ''new_release_date'' then new_release_date info
      else [])"

definition field_names :: "string list" where
  "field_names = [''name'', ''case_number'', ''district'', ''sentence_months'', ''months_served'',
                  ''credits_lost'', ''original_release_date'', ''new_release_date'']"

text \<open>Two exhibit texts: one without any field, one with the caption of the test exhibit.\<close>

definition text_without_fields :: string where
  "text_without_fields = ''Dear clerk, please find the attached exhibits.''"

definition text_with_case_no :: string where
  "text_with_case_no = ''v.    Case No: 1:20-cr-00456-DEF'' @ [CHR 0x0A] @ ''MICHAEL JOHNSON,''"

section \<open>The document splitter\<close>

text \<open>
  The three searches of \<^verbatim>\<open>generate_with_o3_research\<close>,
  \<^verbatim>\<open>re.search(r'===MOTION START===(.*?)===MOTION END===', final_content, re.DOTALL)\<close>
  and its two siblings: case-sensitive, with a lazy group in which the dot matches every
  character.
\<close>

definition delimited :: "string \<Rightarrow> string \<Rightarrow> pattern" where
  "delimited start_mark end_mark = \<lparr>before = Lit start_mark, group = LazyStar Dot, after = Lit end_mark\<rparr>"

definition MOTION_START :: string where "MOTION_START = ''===MOTION START===''"
definition MOTION_END :: string where "MOTION_END = ''===MOTION END===''"
definition MEMO_START :: string where "MEMO_START = ''===MEMO START===''"
definition MEMO_END :: string where "MEMO_END = ''===MEMO END===''"
definition DECL_START :: string where "DECL_START = ''===DECL START===''"
definition DECL_END :: string where "DECL_END = ''===DECL END===''"

text \<open>The dictionary \<^verbatim>\<open>documents\<close> with its keys \<^verbatim>\<open>motion\<close>, \<^verbatim>\<open>memo\<close> and
  \<^verbatim>\<open>declaration\<close> (field \<open>decl\<close>).\<close>

record documents =
  motion :: string
  memo :: string
  decl :: string

definition extract_document :: "string \<Rightarrow> string \<Rightarrow> string \<Rightarrow> string \<Rightarrow> string" where
  "extract_document start_mark end_mark placeholder final_content =
     (case re_search False (delimited start_mark end_mark) final_content of
        Some g \<Rightarrow> strip g
      | None \<Rightarrow> placeholder)"

definition split_documents :: "string \<Rightarrow> documents" where
  "split_documents final_content =
     \<lparr>motion = extract_document MOTION_START MOTION_END
                 ''Motion could not be generated with O3 reasoning'' final_content,
      memo = extract_document MEMO_START MEMO_END
                 ''Memo could not be generated with O3 reasoning'' final_content,
      decl = extract_document DECL_START DECL_END
                 ''Declaration could not be generated with O3 reasoning'' final_content\<rparr>"

text \<open>
  For stating what the splitter finds: \<^verbatim>\<open>str.find\<close>, the index of the first
  occurrence of a substring.
\<close>

fun find_sub :: "string \<Rightarrow> string \<Rightarrow> nat option" where
  "find_sub w [] = (if w = [] then Some 0 else None)"
| "find_sub w (c # cs) =
     (if take (length w) (c # cs) = w then Some 0 else map_option Suc (find_sub w cs))"

text \<open>
  The text between the first occurrence of the start mark and the first occurrence of the
  end mark after it, when both exist.
\<close>

definition delimited_body :: "string \<Rightarrow> string \<Rightarrow> string \<Rightarrow> string option" where
  "delimited_body start_mark end_mark x =
     (case find_sub start_mark x of
        None \<Rightarrow> None
      | Some p \<Rightarrow>
          (case find_sub end_mark (drop (p + length start_mark) x) of
             None \<Rightarrow> None
           | Some q \<Rightarrow> Some (take q (drop (p + length start_mark) x))))"

text \<open>A well-formed response and one whose memorandum block is never closed.\<close>

definition response_ok :: string where
  "response_ok =
     ''Here are the documents.'' @ [CHR 0x0A] @
     ''===MOTION START==='' @ [CHR 0x0A] @ ''MOTION FOR RELEASE'' @ [CHR 0x0A] @ ''===MOTION END==='' @
     [CHR 0x0A, CHR 0x0A] @
     ''===MEMO START==='' @ [CHR 0x0A] @ ''I. INTRODUCTION'' @ [CHR 0x0A] @ ''===MEMO END==='' @
     [CHR 0x0A, CHR 0x0A] @
     ''===DECL START==='' @ [CHR 0x0A] @ ''I declare.'' @ [CHR 0x0A] @ ''===DECL END===''"

definition response_broken :: string where
  "response_broken =
     ''===MOTION END=== ===MOTION START=== text'' @ [CHR 0x0A] @
     ''===MEMO START==='' @ [CHR 0x0A] @ ''I. INTRODUCTION'' @ [CHR 0x0A] @ ''===MEMO END''"

section \<open>The generation orchestrator\<close>

text \<open>
  What a run of \<^verbatim>\<open>generate_with_o3_research\<close> does, in order: it makes sure the session
  exists, appends events to its log, sends requests to the model provider, renders files and
  finally marks the session completed. Only the first three kinds touch the session.
\<close>

datatype effect =
    EnsureSession
  | AppendEvent event
  | SetCompleted
  | ModelRequest string
  | CreatePdf string string
  | CreateZip "string list"

text \<open>
  The entry \<^verbatim>\<open>active_sessions[session_id]\<close> under the session effects.
  \<^verbatim>\<open>EnsureSession\<close> is
  \<^verbatim>\<open>if session_id not in active_sessions: active_sessions[session_id] = {...}\<close>.
\<close>

fun apply_effect :: "session option \<Rightarrow> effect \<Rightarrow> session option" where
  "apply_effect None EnsureSession = Some new_session"
| "apply_effect (Some s) EnsureSession = Some s"
| "apply_effect (Some s) (AppendEvent e) = Some (s\<lparr>events := events s @ [e]\<rparr>)"
| "apply_effect (Some s) SetCompleted = Some (s\<lparr>status := ''completed''\<rparr>)"
| "apply_effect entry eff = entry"

text \<open>All the states the entry goes through, the initial one first.\<close>

fun states :: "session option \<Rightarrow> effect list \<Rightarrow> session option list" where
  "states entry [] = [entry]"
| "states entry (eff # effs) = entry # states (apply_effect entry eff) effs"

text \<open>
  The life cycle of a session, as a check of two successive states: the log of the later
  state extends the log of the earlier one, and a completed session does not change any more.
\<close>

fun step_ok :: "session option \<Rightarrow> session option \<Rightarrow> bool" where
  "step_ok None entry = True"
| "step_ok (Some s) None = False"
| "step_ok (Some s) (Some s') =
     (take (length (events s)) (events s') = events s \<and>
      (if status s = ''completed'' then s' = s else status s' = ''active'' \<or> status s' = ''completed''))"

fun lifecycle_ok :: "session option list \<Rightarrow> bool" where
  "lifecycle_ok (a # b # rest) = (step_ok a b \<and> lifecycle_ok (b # rest))"
| "lifecycle_ok rest = True"

text \<open>The session effects of a run as actions of the relay's environment.\<close>

fun actions_of :: "effect list \<Rightarrow> action list" where
  "actions_of [] = []"
| "actions_of (EnsureSession # effs) = Create # actions_of effs"
| "actions_of (AppendEvent e # effs) = Append e # actions_of effs"
| "actions_of (SetCompleted # effs) = MarkCompleted # actions_of effs"
| "actions_of (eff # effs) = actions_of effs"



subsection \<open>Rendering and completion\<close>

text \<open>
  The part of the function after the \<^verbatim>\<open>try\<close> statement: the three documents are rendered
  in the order of the dictionary, \<^verbatim>\<open>doc_type.title() + ".pdf"\<close> being the file name, the
  archive is written, the completion event is appended and the status is set. The
  renderer and the archiver are taken to succeed.
\<close>

definition thinking :: "string \<Rightarrow> effect" where
  "thinking s = AppendEvent \<lparr>etype = ''thinking'', payload = JStr s\<rparr>"

definition render_all :: "documents \<Rightarrow> effect list" where
  "render_all docs =
     [CreatePdf ''Motion.pdf'' (motion docs), CreatePdf ''Memo.pdf'' (memo docs),
      CreatePdf ''Declaration.pdf'' (decl docs),
      CreateZip [''Motion.pdf'', ''Memo.pdf'', ''Declaration.pdf'']]"

definition done_event :: "string \<Rightarrow> event" where
  "done_event session_id =
     \<lparr>etype = ''done'',
      payload = JObj
        [(''motion_url'', JStr (''/api/download/'' @ session_id @ ''/Motion.pdf'')),
         (''memo_url'', JStr (''/api/download/'' @ session_id @ ''/Memo.pdf'')),
         (''decl_url'', JStr (''/api/download/'' @ session_id @ ''/Declaration.pdf'')),
         (''zip_url'', JStr (''/api/download/'' @ session_id @ ''/motion_packet.zip'')),
         (''session_id'', JStr session_id)]\<rparr>"

definition finish :: "string \<Rightarrow> string \<Rightarrow> effect list" where
  "finish session_id content =
     render_all (split_documents content) @ [AppendEvent (done_event session_id), SetCompleted]"

subsection \<open>\<^verbatim>\<open>main.py\<close>: \<^verbatim>\<open>generate_with_o3_research\<close>\<close>

definition nl :: string where
  "nl = [CHR 0x0A]"

text \<open>\<^verbatim>\<open>str.split()\<close> without arguments: the maximal runs of characters that are not whitespace.\<close>

fun words_from :: "string \<Rightarrow> string \<Rightarrow> string list" where
  "words_from [] w = (if w = [] then [] else [w])"
| "words_from (c # cs) w =
     (if isspace c then (if w = [] then words_from cs [] else w # words_from cs [])
      else words_from cs (w @ [c]))"

definition split_ws :: "string \<Rightarrow> string list" where
  "split_ws s = words_from s []"

definition thinking_text :: "DefendantInfo \<Rightarrow> string" where
  "thinking_text info = concat
     [''Analyzing case for '', name info, ''...'', nl, nl,
      ''Considering factors:'', nl,
      ''- Case: '', case_number info, nl,
      ''- District: '', district info, nl, nl,
      ''Researching relevant precedents...'']"

definition search_queries :: "DefendantInfo \<Rightarrow> string list" where
  "search_queries info =
     [''First Step Act compassionate release '' @ district info,
      ''FSA motion medical condition precedents'',
      ''compassionate release success factors 2024'']"

definition search_event :: "string \<Rightarrow> result list \<Rightarrow> event" where
  "search_event query results =
     \<lparr>etype = ''search'',
      payload = JObj [(''query'', JStr query), (''results'', JList (map JObj results))]\<rparr>"

text \<open>The text the simulated generation produces, and the one of the exception handler.\<close>

definition final_content :: "DefendantInfo \<Rightarrow> string" where
  "final_content info = concat
     [''===MOTION START==='', nl,
      ''UNITED STATES DISTRICT COURT'', nl,
      district info, nl,
      nl,
      ''UNITED STATES OF AMERICA,'', nl,
      ''                    Plaintiff,'', nl,
      ''v.                                     Case No: '', case_number info, nl,
      name info, '','', nl,
      ''                    Defendant.'', nl,
      nl,
      ''MOTION FOR COMPASSIONATE RELEASE PURSUANT TO 18 U.S.C. '', [CHR 0xA7], '' 3582(c)(1)(A)'', nl,
      nl,
      ''TO THE HONORABLE COURT:'', nl,
      nl,
      ''Defendant '', name info, '', through undersigned counsel, respectfully moves this Court for compassionate release pursuant to 18 U.S.C. '', [CHR 0xA7], '' 3582(c)(1)(A) and the First Step Act of 2018.'', nl,
      nl,
      ''Based on recent precedents from the U.S. Sentencing Commission and federal courts, including data from FY 2024 quarterly reports showing increased success rates for motions with compelling medical circumstances, this motion presents extraordinary and compelling reasons warranting immediate release.'', nl,
      nl,
      ''WHEREFORE, Defendant respectfully requests that this Court grant this Motion and order the immediate release of '', name info, ''.'', nl,
      nl,
      ''Respectfully submitted,'', nl,
      ''[Attorney Name]'', nl,
      ''Attorney for Defendant'', nl,
      ''===MOTION END==='', nl,
      nl,
      ''===MEMO START==='', nl,
      ''MEMORANDUM OF LAW IN SUPPORT OF MOTION FOR COMPASSIONATE RELEASE'', nl,
      nl,
      ''I. INTRODUCTION'', nl,
      nl,
      ''Defendant '', name info, '' seeks compassionate release under 18 U.S.C. '', [CHR 0xA7], '' 3582(c)(1)(A), as amended by the First Step Act. Recent U.S. Sentencing Commission data shows courts in '', district info, '' have recognized the evolving standards for extraordinary and compelling circumstances.'', nl,
      nl,
      ''II. LEGAL STANDARD'', nl,
      nl,
      ''The First Step Act of 2018 amended 18 U.S.C. '', [CHR 0xA7], '' 3582(c)(1)(A) to allow defendants to petition directly for compassionate release after exhausting administrative remedies or waiting 30 days. Per the U.S. Sentencing Commission'', [CHR 0x27], ''s 2024 quarterly reports, courts must consider: (1) extraordinary and compelling circumstances; (2) the '', [CHR 0xA7], '' 3553(a) factors; and (3) public safety implications.'', nl,
      nl,
      ''III. ARGUMENT'', nl,
      nl,
      ''A. Extraordinary and Compelling Circumstances Exist'', nl,
      nl,
      ''Based on current legal precedents and the research conducted, federal courts have increasingly recognized that medical conditions combined with family circumstances constitute extraordinary and compelling reasons for release. The Fifth Circuit'', [CHR 0x27], ''s recent guidance emphasizes that district courts retain discretion in evaluating such circumstances.'', nl,
      nl,
      ''B. Section 3553(a) Factors Support Release'', nl,
      nl,
      ''The sentencing factors support compassionate release, particularly given defendant'', [CHR 0x27], ''s rehabilitation efforts and changed circumstances since sentencing.'', nl,
      nl,
      ''C. Public Safety is Not Compromised'', nl,
      nl,
      ''Defendant poses no danger to the community, as evidenced by the release plan and family support structure.'', nl,
      nl,
      ''IV. CONCLUSION'', nl,
      nl,
      ''For the foregoing reasons, incorporating current legal authorities and precedents found through comprehensive research, this Court should grant '', name info, [CHR 0x27], ''s motion for compassionate release.'', nl,
      nl,
      ''Respectfully submitted,'', nl,
      ''[Attorney Name]'', nl,
      ''Attorney for Defendant'', nl,
      ''===MEMO END==='', nl,
      nl,
      ''===DECL START==='', nl,
      ''DECLARATION OF '', name info, nl,
      nl,
      ''I, '', name info, '', hereby declare under penalty of perjury that the following is true and correct:'', nl,
      nl,
      ''1. I am the defendant in the above-captioned case, '', case_number info, '', pending in the '', district info, ''.'', nl,
      nl,
      ''2. I have been incarcerated since my sentencing and have served a substantial portion of my sentence while maintaining an exemplary disciplinary record.'', nl,
      nl,
      ''3. I have experienced significant medical conditions that constitute extraordinary and compelling circumstances warranting compassionate release under current federal guidelines.'', nl,
      nl,
      ''4. I have strong family and community support for my release, including verified housing arrangements and medical care plans.'', nl,
      nl,
      ''5. I have participated extensively in rehabilitative programming during my incarceration and pose no danger to the community upon release.'', nl,
      nl,
      ''6. I have exhausted all administrative remedies available through the Bureau of Prisons regarding my request for compassionate release.'', nl,
      nl,
      ''I declare under penalty of perjury that the foregoing is true and correct.'', nl,
      nl,
      ''Executed this ___ day of December, 2024.'', nl,
      nl,
      ''                    _________________________'', nl,
      ''                    '', name info, nl,
      ''                    Defendant'', nl,
      ''===DECL END==='']"

definition fallback_content :: "DefendantInfo \<Rightarrow> string" where
  "fallback_content info = concat
     [''===MOTION START==='', nl,
      ''Motion for '', name info, '' in case '', case_number info, nl,
      ''===MOTION END==='', nl,
      nl,
      ''===MEMO START==='', nl,
      ''Memorandum for compassionate release'', nl,
      ''===MEMO END==='', nl,
      nl,
      ''===DECL START==='', nl,
      ''Declaration from '', name info, nl,
      ''===DECL END==='']"

text \<open>
  The loop over the queries. The awaited \<^verbatim>\<open>web_search\<close> is a parameter: a callable
  that returns a list or raises (\<open>Inl\<close>). The result is the effects so far and the
  exception that ended the loop, if any.
\<close>

fun search_loop ::
    "(string \<Rightarrow> int \<Rightarrow> string + result list) \<Rightarrow> string list \<Rightarrow> effect list \<times> string option" where
  "search_loop search [] = ([], None)"
| "search_loop search (query # queries) =
     (let announce = thinking (nl @ nl @ ''Searching: '' @ query @ ''...'') in
      case search query 3 of
        Inl e \<Rightarrow> ([announce], Some e)
      | Inr results \<Rightarrow>
          (case search_loop search queries of
             (effs, raised) \<Rightarrow> (announce # AppendEvent (search_event query results) # effs, raised)))"

text \<open>The \<^verbatim>\<open>try\<close> block: its effects, and the content or the exception it ends with.\<close>

definition try_block ::
    "(string \<Rightarrow> int \<Rightarrow> string + result list) \<Rightarrow> DefendantInfo \<Rightarrow> effect list \<times> (string + string)" where
  "try_block search info =
     (let chunks = map (\<lambda>chunk. thinking (chunk @ '' '')) (split_ws (thinking_text info)) in
      case search_loop search (search_queries info) of
        (effs, Some e) \<Rightarrow> (chunks @ effs, Inl e)
      | (effs, None) \<Rightarrow>
          (chunks @ effs @
             [thinking (nl @ nl @ ''Generating professional legal documents with case citations and precedent analysis...'')],
           Inr (final_content info)))"

definition generation_error :: "string \<Rightarrow> effect" where
  "generation_error e = AppendEvent \<lparr>etype = ''error'', payload = JStr (''Generation error: '' @ e)\<rparr>"

definition generate_with :: 
    "(string \<Rightarrow> int \<Rightarrow> string + result list) \<Rightarrow> DefendantInfo \<Rightarrow> string \<Rightarrow> effect list" where
  "generate_with search info session_id =
     EnsureSession #
     (case try_block search info of
        (effs, Inr content) \<Rightarrow> effs @ finish session_id content
      | (effs, Inl e) \<Rightarrow> effs @ [generation_error e] @ finish session_id (fallback_content info))"

text \<open>The function as \<^verbatim>\<open>main.py\<close> runs it, with \<^verbatim>\<open>web_search\<close> of \<^verbatim>\<open>ai_utils.py\<close>.\<close>

definition generate_with_o3_research ::
    "(string \<Rightarrow> int \<Rightarrow> http_outcome) \<Rightarrow> DefendantInfo \<Rightarrow> string \<Rightarrow> effect list" where
  "generate_with_o3_research http info session_id = generate_with (web_search http) info session_id"



subsection \<open>\<^verbatim>\<open>main_o3.py\<close> and \<^verbatim>\<open>main_backup.py\<close>: the model loop\<close>

text \<open>
  A streamed tool call: its id and its \<^verbatim>\<open>function\<close> attribute (which may be \<^verbatim>\<open>None\<close>),
  with the name (empty when there is none) and what \<^verbatim>\<open>json.loads\<close> makes of the
  arguments: it raises, or it yields an object with an optional \<^verbatim>\<open>"query"\<close> string and
  an optional \<^verbatim>\<open>"k"\<close> integer, as the tool schema declares them.
\<close>

datatype arguments = BadJson string | Args "string option" "int option"

record tool_function =
  fname :: string
  fargs :: arguments

record tool_call =
  tc_id :: string
  tc_function :: "tool_function option"

text \<open>
  A chunk of the stream is \<open>None\<close> when its list \<^verbatim>\<open>choices\<close> is empty, and otherwise
  the delta of its first choice: the content (empty when there is none), the tool calls,
  and whether \<^verbatim>\<open>finish_reason\<close> is set. Iterating over the stream delivers the chunks
  and then ends, or raises when \<open>broken\<close> says so.
\<close>

record delta =
  d_content :: string
  d_tool_calls :: "tool_call list"
  d_finish :: bool

record stream =
  chunks :: "delta option list"
  broken :: "string option"

text \<open>The conversation: only the roles, the assistant's content and the number of turns matter.\<close>

datatype msg =
    System string
  | User string
  | Assistant "string option" "tool_call list"
  | Tool string "result list"

datatype ending = Broke | Threw string | Waiting

definition no_attribute_name :: string where
  "no_attribute_name = [CHR 0x27] @ ''NoneType'' @ [CHR 0x27] @ '' object has no attribute '' @
     [CHR 0x27] @ ''name'' @ [CHR 0x27]"

definition thinking_o3 :: "string \<Rightarrow> effect" where
  "thinking_o3 s =
     AppendEvent \<lparr>etype = ''thinking'', payload = JObj [(''content'', JStr s)]\<rparr>"

definition search_event_o3 :: "string \<Rightarrow> result list \<Rightarrow> effect" where
  "search_event_o3 query results =
     AppendEvent \<lparr>etype = ''search'',
                  payload = JObj [(''query'', JStr query), (''results'', JList (map JObj results))]\<rparr>"

text \<open>
  \<^verbatim>\<open>for chunk in response\<close>. \<^verbatim>\<open>main_o3.py\<close> passes over a chunk without choices;
  \<^verbatim>\<open>main_backup.py\<close> indexes \<^verbatim>\<open>chunk.choices[0]\<close> unguarded (\<open>strict\<close>), which raises
  \<^verbatim>\<open>IndexError\<close>. The result: the events appended, \<^verbatim>\<open>full_content\<close>, the collected
  tool calls and the exception that ended the iteration, if any.
\<close>

fun consume ::
    "bool \<Rightarrow> delta option list \<Rightarrow> string option \<Rightarrow>
       effect list \<times> string \<times> tool_call list \<times> string option" where
  "consume strict [] failure = ([], [], [], failure)"
| "consume strict (None # cs) failure =
     (if strict then ([], [], [], Some ''list index out of range'') else consume strict cs failure)"
| "consume strict (Some d # cs) failure =
     (let effs0 = (if d_content d \<noteq> [] then [thinking_o3 (d_content d)] else []) in
      if d_finish d then (effs0, d_content d, d_tool_calls d, None)
      else case consume strict cs failure of
             (effs, full_content, tcs, raised) \<Rightarrow>
               (effs0 @ effs, d_content d @ full_content, d_tool_calls d @ tcs, raised))"

text \<open>
  \<^verbatim>\<open>for tool_call in tool_calls\<close>: the effects, the tool messages added to the
  conversation, and the exception that ended the loop, if any.
\<close>

fun run_tools ::
    "(string \<Rightarrow> int \<Rightarrow> string + result list) \<Rightarrow> tool_call list \<Rightarrow>
       effect list \<times> msg list \<times> string option" where
  "run_tools search [] = ([], [], None)"
| "run_tools search (tc # tcs) =
     (case tc_function tc of
        None \<Rightarrow> ([], [], Some no_attribute_name)
      | Some f \<Rightarrow>
          if fname f = ''web_search'' then
            (case fargs f of
               BadJson e \<Rightarrow> ([], [], Some e)
             | Args None k \<Rightarrow> ([], [], Some ([CHR 0x27] @ ''query'' @ [CHR 0x27]))
             | Args (Some query) k \<Rightarrow>
                 (case search query (case k of None \<Rightarrow> 5 | Some n \<Rightarrow> n) of
                    Inl e \<Rightarrow> ([], [], Some e)
                  | Inr results \<Rightarrow>
                      (case run_tools search tcs of
                         (effs, msgs, raised) \<Rightarrow>
                           (search_event_o3 query results # effs,
                            Tool (tc_id tc) results # msgs, raised))))
          else run_tools search tcs)"

definition contains :: "string \<Rightarrow> string \<Rightarrow> bool" where
  "contains w s = (find_sub w s \<noteq> None)"

text \<open>
  The loop \<^verbatim>\<open>while True\<close>, run against the replies of the provider in the order in which
  they arrive: \<open>Inl\<close> is a request that raises, \<open>Inr\<close> a stream. When the replies run
  out the run is waiting for the provider (\<open>Waiting\<close>). With \<open>fallback\<close>
  (\<^verbatim>\<open>main_backup.py\<close>) a request for \<^verbatim>\<open>o3\<close> that raises is followed by a request for
  \<^verbatim>\<open>gpt-4o\<close>, whose exception is not caught inside the loop; without it
  (\<^verbatim>\<open>main_o3.py\<close>) the exception of the only request leaves the loop. The result: the
  effects, how the loop ended, and the conversation.
\<close>

fun research_loop ::
    "bool \<Rightarrow> bool \<Rightarrow> (string \<Rightarrow> int \<Rightarrow> string + result list) \<Rightarrow> (string + stream) list \<Rightarrow>
       msg list \<Rightarrow> effect list \<times> ending \<times> msg list"
and after_reply ::
    "bool \<Rightarrow> bool \<Rightarrow> (string \<Rightarrow> int \<Rightarrow> string + result list) \<Rightarrow> stream \<Rightarrow> (string + stream) list \<Rightarrow>
       msg list \<Rightarrow> effect list \<times> ending \<times> msg list" where
  "research_loop fallback strict search [] messages = ([ModelRequest ''o3''], Waiting, messages)"
| "research_loop fallback strict search (Inr response # replies) messages =
     (case after_reply fallback strict search response replies messages of
        (effs, ending, messages') \<Rightarrow> (ModelRequest ''o3'' # effs, ending, messages'))"
| "research_loop fallback strict search (Inl e # replies) messages =
     (if fallback then
        (case replies of
           [] \<Rightarrow> ([ModelRequest ''o3'', ModelRequest ''gpt-4o''], Waiting, messages)
         | Inl e' # replies' \<Rightarrow> ([ModelRequest ''o3'', ModelRequest ''gpt-4o''], Threw e', messages)
         | Inr response # replies' \<Rightarrow>
             (case after_reply fallback strict search response replies' messages of
                (effs, ending, messages') \<Rightarrow>
                  (ModelRequest ''o3'' # ModelRequest ''gpt-4o'' # effs, ending, messages')))
      else ([ModelRequest ''o3''], Threw e, messages))"
| "after_reply fallback strict search response replies messages =
     (case consume strict (chunks response) (broken response) of
        (effs, full_content, tcs, Some e) \<Rightarrow> (effs, Threw e, messages)
      | (effs, full_content, tcs, None) \<Rightarrow>
          (let messages1 =
                 messages @ [Assistant (if full_content = [] then None else Some full_content) tcs] in
           if tcs \<noteq> [] then
             (case run_tools search tcs of
                (effs', msgs, Some e) \<Rightarrow> (effs @ effs', Threw e, messages1 @ msgs)
              | (effs', msgs, None) \<Rightarrow>
                  (case research_loop fallback strict search replies (messages1 @ msgs) of
                     (effs'', ending, messages') \<Rightarrow> (effs @ effs' @ effs'', ending, messages')))
           else if full_content \<noteq> [] \<and> contains MOTION_START full_content
                   \<and> contains DECL_END full_content
             then (effs, Broke, messages1)
           else if length messages1 > 25 then (effs, Broke, messages1)
           else
             (case research_loop fallback strict search replies messages1 of
                (effs'', ending, messages') \<Rightarrow> (effs @ effs'', ending, messages'))))"

text \<open>The prompts that open the conversation in the two variants.\<close>

definition system_prompt_o3 :: "DefendantInfo \<Rightarrow> string" where
  "system_prompt_o3 info = concat
     [''You are an expert federal defense attorney specializing in First Step Act compassionate release motions. You have access to web search to find current case law and precedents.'', nl,
      nl,
      ''    Defendant Information:'', nl,
      ''    - Name: '', name info, nl,
      ''    - Case: '', case_number info, nl,
      ''    - District: '', district info, nl,
      ''    - Sentence: '', sentence_months info, '' months'', nl,
      ''    - Served: '', months_served info, '' months'', nl,
      nl,
      ''    Your task is to:'', nl,
      ''    1. Research current legal precedents and case law relevant to this defendant'', [CHR 0x27], ''s situation'', nl,
      ''    2. Search for recent First Step Act decisions in the '', district info, nl,
      ''    3. Generate comprehensive legal documents incorporating your research'', nl,
      nl,
      ''    Generate three documents with these exact delimiters:'', nl,
      nl,
      ''    ===MOTION START==='', nl,
      ''    [Complete Motion for Compassionate Release]'', nl,
      ''    ===MOTION END==='', nl,
      nl,
      ''    ===MEMO START==='', nl,
      ''    [Complete Memorandum of Law with case citations]'', nl,
      ''    ===MEMO END==='', nl,
      nl,
      ''    ===DECL START==='', nl,
      ''    [Complete Declaration with factual support]'', nl,
      ''    ===DECL END==='', nl,
      nl,
      ''    Use web search extensively to find relevant cases, statistics, and current legal developments.'']"

definition user_prompt_o3 :: "DefendantInfo \<Rightarrow> string" where
  "user_prompt_o3 info = concat
     [''Please research and generate a comprehensive FSA motion packet for '', name info, ''.'']"



definition initial_messages_o3 :: "DefendantInfo \<Rightarrow> msg list" where
  "initial_messages_o3 info = [System (system_prompt_o3 info), User (user_prompt_o3 info)]"


text \<open>
  \<^verbatim>\<open>for msg in reversed(messages)\<close>: the content of the last assistant message that has
  one, or the empty string.
\<close>

fun final_content_of :: "msg list \<Rightarrow> string" where
  "final_content_of [] = []"
| "final_content_of (m # ms) =
     (case final_content_of ms of
        [] \<Rightarrow> (case m of Assistant (Some c) tcs \<Rightarrow> c | _ \<Rightarrow> [])
      | c # cs \<Rightarrow> c # cs)"

definition reasoning_error :: "string \<Rightarrow> effect" where
  "reasoning_error e =
     AppendEvent \<lparr>etype = ''error'',
                  payload = JStr (''Error during O3 reasoning and generation: '' @ e)\<rparr>"

definition done_event_o3 :: "string \<Rightarrow> string \<Rightarrow> event" where
  "done_event_o3 archive session_id =
     \<lparr>etype = ''done'',
      payload = JObj
        [(''motion_url'', JStr (''/download/'' @ session_id @ ''/Motion.pdf'')),
         (''memo_url'', JStr (''/download/'' @ session_id @ ''/Memo.pdf'')),
         (''decl_url'', JStr (''/download/'' @ session_id @ ''/Declaration.pdf'')),
         (''zip_url'', JStr (''/download/'' @ session_id @ ''/'' @ archive))]\<rparr>"

definition finish_o3 :: "string \<Rightarrow> string \<Rightarrow> effect list" where
  "finish_o3 session_id content =
     render_all (split_documents content) @
     [AppendEvent (done_event_o3 ''motion_packet.zip'' session_id), SetCompleted]"

text \<open>\<^verbatim>\<open>main_backup.py\<close> has shorter placeholders and calls the archive \<^verbatim>\<open>packet.zip\<close>.\<close>

definition split_documents_backup :: "string \<Rightarrow> documents" where
  "split_documents_backup content =
     \<lparr>motion = extract_document MOTION_START MOTION_END ''Motion could not be generated'' content,
      memo = extract_document MEMO_START MEMO_END ''Memo could not be generated'' content,
      decl = extract_document DECL_START DECL_END ''Declaration could not be generated'' content\<rparr>"

definition finish_backup :: "string \<Rightarrow> string \<Rightarrow> effect list" where
  "finish_backup session_id content =
     render_all (split_documents_backup content) @
     [AppendEvent (done_event_o3 ''packet.zip'' session_id), SetCompleted]"

datatype outcome = Completed | Aborted | Unfinished

text \<open>
  The whole function: the session is ensured, the loop runs inside \<^verbatim>\<open>try\<close>; the handler
  appends the error event and returns; otherwise the documents are split off the last
  assistant message and rendered.
\<close>

definition generate_loop ::
    "bool \<Rightarrow> bool \<Rightarrow> (string \<Rightarrow> int \<Rightarrow> string + result list) \<Rightarrow> (string \<Rightarrow> string \<Rightarrow> effect list) \<Rightarrow>
       msg list \<Rightarrow> (string + stream) list \<Rightarrow> string \<Rightarrow> effect list \<times> outcome" where
  "generate_loop fallback strict search fin initial replies session_id =
     (case research_loop fallback strict search replies initial of
        (effs, Broke, messages) \<Rightarrow>
          (EnsureSession # effs @ fin session_id (final_content_of messages), Completed)
      | (effs, Threw e, messages) \<Rightarrow> (EnsureSession # effs @ [reasoning_error e], Aborted)
      | (effs, Waiting, messages) \<Rightarrow> (EnsureSession # effs, Unfinished))"

definition generate_with_o3_research_o3 ::
    "(string \<Rightarrow> int \<Rightarrow> http_outcome) \<Rightarrow> DefendantInfo \<Rightarrow> (string + stream) list \<Rightarrow> string \<Rightarrow>
       effect list \<times> outcome" where
  "generate_with_o3_research_o3 http info replies session_id =
     generate_loop False False (web_search_o3 http) finish_o3 (initial_messages_o3 info) replies
       session_id"


subsection \<open>\<^verbatim>\<open>ai_utils.py\<close>: \<^verbatim>\<open>stream_o3_completion\<close>\<close>










subsection \<open>Shapes of traces\<close>

text \<open>
  The effects the body of a run can have before it ends: progress and search events and
  requests to the provider.
\<close>

fun in_progress :: "effect \<Rightarrow> bool" where
  "in_progress (AppendEvent e) = (etype e = ''thinking'' \<or> etype e = ''search'')"
| "in_progress (ModelRequest m) = True"
| "in_progress eff = False"

text \<open>The models requested, in order; and the sequences made of \<^verbatim>\<open>o3\<close> and \<^verbatim>\<open>o3, gpt-4o\<close>.\<close>

fun requests :: "effect list \<Rightarrow> string list" where
  "requests [] = []"
| "requests (ModelRequest m # effs) = m # requests effs"
| "requests (eff # effs) = requests effs"

fun primary_then_secondary :: "string list \<Rightarrow> bool" where
  "primary_then_secondary [] = True"
| "primary_then_secondary [m] = (m = ''o3'')"
| "primary_then_secondary (m # m' # ms) =
     (m = ''o3'' \<and> (if m' = ''gpt-4o'' then primary_then_secondary ms
                      else primary_then_secondary (m' # ms)))"

definition good_run :: "bool \<Rightarrow> effect list \<Rightarrow> bool" where
  "good_run fallback effs =
     (list_all in_progress effs \<and> primary_then_secondary (requests effs) \<and>
      (fallback \<or> ''gpt-4o'' \<notin> set (requests effs)))"

section \<open>Properties of the relay\<close>


lemma scan_Yield_aux:
  "n - i = k \<Longrightarrow> scan evs i n = Yield j w brk \<Longrightarrow>
     i \<le> j \<and> j < n \<and> j < length evs \<and> w = wire_of (evs ! j)"
proof (induction k arbitrary: i)
  case 0
  then show ?case by (simp add: scan.simps[of evs i n])
next
  case (Suc k)
  have k: "n - Suc i = k" using Suc.prems(1) by arith
  have rec: "scan evs (Suc i) n = Yield j w brk \<Longrightarrow> ?case"
    using Suc.IH[OF k] by fastforce
  from Suc.prems have ni: "\<not> n \<le> i" by arith
  show ?case
  proof (cases "scan evs i n = scan evs (Suc i) n")
    case True
    then show ?thesis using rec Suc.prems(2) by simp
  next
    case False
    then have "length evs > i \<and> j = i \<and> w = wire_of (evs ! i)"
      using Suc.prems(2) ni
      by (subst (asm) (1 3) scan.simps) (auto simp: Let_def wire_of_def split: if_splits)
    then show ?thesis using ni by simp
  qed
qed

lemmas scan_Yield = scan_Yield_aux[OF refl]

lemma scan_in_range_aux:
  "n - i = k \<Longrightarrow> n \<le> length evs \<Longrightarrow> scan evs i n \<noteq> IndexError"
proof (induction k arbitrary: i)
  case 0
  then show ?case by (simp add: scan.simps[of evs i n])
next
  case (Suc k)
  have k: "n - Suc i = k" using Suc.prems(1) by arith
  have rec: "scan evs (Suc i) n \<noteq> IndexError"
    using Suc.IH[OF k Suc.prems(2)] .
  show ?case
    by (subst scan.simps) (use rec Suc.prems in \<open>auto simp: Let_def\<close>)
qed

lemmas scan_in_range = scan_in_range_aux[OF refl]

lemma for_loop_cases:
  assumes "n \<le> length (events s)"
  shows "for_loop s r i n = after_loop s r \<or>
     (\<exists>j brk. i \<le> j \<and> j < n \<and>
        for_loop s r i n = r\<lparr>pc := AtYield j n brk, sent := sent r @ [(j, wire_of (events s ! j))]\<rparr>)"
proof (cases "scan (events s) i n")
  case LoopEnd
  then show ?thesis by (simp add: for_loop_def)
next
  case (Yield j w brk)
  from scan_Yield[OF Yield] show ?thesis using Yield by (auto simp: for_loop_def)
next
  case IndexError
  then show ?thesis using assms scan_in_range by blast
qed

lemma inv_init: "inv init"
  by (simp add: inv_def init_def new_session_def)

lemma inv_create: "inv s \<Longrightarrow> inv (env_create s)"
  by (auto simp: inv_def env_create_def new_session_def Let_def split: pc.splits)

lemma inv_append: "inv s \<Longrightarrow> inv (env_append e s)"
  by (auto simp: inv_def env_append_def Let_def nth_append split: pc.splits)

lemma inv_complete: "inv s \<Longrightarrow> inv (env_complete s)"
  by (auto simp: inv_def env_complete_def Let_def split: pc.splits)

lemma inv_after_loop:
  "inv s \<Longrightarrow> inv (s\<lparr>rel := after_loop (sess s) (rel s)\<rparr>)"
  by (auto simp: inv_def after_loop_def Let_def split: pc.splits)

lemma inv_yield:
  assumes "inv s" "last_event_index (rel s) \<le> i" "i \<le> j" "j < n" "n \<le> length (events (sess s))"
    "\<forall>k \<in> fst ` set (sent (rel s)). k < i"
  shows "inv (s\<lparr>rel := (rel s)\<lparr>pc := AtYield j n brk,
                   sent := sent (rel s) @ [(j, wire_of (events (sess s) ! j))]\<rparr>\<rparr>)"
  using assms by (auto simp: inv_def Let_def sorted_wrt_append split: pc.splits)

lemma inv_for_loop:
  assumes "inv s" "last_event_index (rel s) \<le> i" "n \<le> length (events (sess s))"
    "\<forall>j \<in> fst ` set (sent (rel s)). j < i"
  shows "inv (s\<lparr>rel := for_loop (sess s) (rel s) i n\<rparr>)"
  using for_loop_cases[OF assms(3), of "rel s" i] inv_after_loop[OF assms(1)]
    inv_yield[OF assms(1,2) _ _ assms(3,4)]
  by auto

lemma inv_resume: "inv s \<Longrightarrow> inv (s\<lparr>rel := event_generator d s\<rparr>)"
proof (cases "pc (rel s)")
  case AtSleep
  assume i: "inv s"
  show ?thesis
  proof (cases "\<not> d \<and> registered s")
    case True
    have "inv (s\<lparr>rel := for_loop (sess s) (rel s) (last_event_index (rel s)) (length (events (sess s)))\<rparr>)"
      using i AtSleep by (intro inv_for_loop) (auto simp: inv_def Let_def)
    then show ?thesis using True AtSleep by (simp add: event_generator_def Let_def)
  next
    case False
    then show ?thesis using i AtSleep
      by (auto simp: event_generator_def inv_def Let_def)
  qed
next
  case (AtYield i n brk)
  assume iv: "inv s"
  show ?thesis
  proof (cases brk)
    case True
    then show ?thesis using AtYield inv_after_loop[OF iv] by (simp add: event_generator_def Let_def)
  next
    case False
    have "inv (s\<lparr>rel := for_loop (sess s) (rel s) (Suc i) n\<rparr>)"
      using iv AtYield by (intro inv_for_loop) (auto simp: inv_def Let_def)
    then show ?thesis using False AtYield by (simp add: event_generator_def Let_def)
  qed
next
  case Finished
  assume "inv s"
  then show ?thesis using Finished by (simp add: event_generator_def inv_def Let_def)
next
  case Raised
  assume "inv s"
  then show ?thesis using Raised by (simp add: event_generator_def inv_def Let_def)
qed

lemma inv_step: "inv s \<Longrightarrow> inv (step s a)"
  by (cases a) (simp_all add: inv_create inv_append inv_complete inv_resume)

lemma inv_run: "inv (run sch)"
  by (induction sch rule: rev_induct) (simp_all add: run_def inv_init inv_step)

lemma for_loop_last:
  "n \<le> length (events s) \<Longrightarrow> last_event_index r \<le> length (events s) \<Longrightarrow>
     last_event_index r \<le> last_event_index (for_loop s r i n)"
  using for_loop_cases[of n s r i] by (auto simp: after_loop_def)

lemma step_mono: "inv s \<Longrightarrow> last_event_index (rel s) \<le> last_event_index (rel (step s a))"
proof (cases a)
  case (Resume d)
  assume "inv s"
  then show ?thesis using Resume
    by (auto simp: inv_def Let_def event_generator_def after_loop_def for_loop_last split: pc.splits)
qed (simp_all add: env_create_def env_append_def env_complete_def)

lemma run_mono: "last_event_index (rel (run sch)) \<le> last_event_index (rel (run (sch @ sch')))"
proof (induction sch' rule: rev_induct)
  case Nil
  then show ?case by simp
next
  case (snoc a sch')
  have "run (sch @ sch' @ [a]) = step (run (sch @ sch')) a"
    by (simp add: run_def)
  then show ?case using snoc step_mono[OF inv_run, of "sch @ sch'" a] by simp
qed

lemma positions_append: "m \<le> length evs \<Longrightarrow> positions (evs @ [e]) m = positions evs m"
  by (simp add: positions_def nth_append)

lemma positions_Suc: "positions evs (Suc m) = positions evs m @ [(m, wire_of (evs ! m))]"
  by (simp add: positions_def)

lemma binv_init: "binv init_backup"
  by (simp add: binv_def init_backup_def new_session_def positions_def)

lemma binv_create: "binv s \<Longrightarrow> binv (env_create s)"
  by (auto simp: binv_def env_create_def new_session_def Let_def split: bpc.splits)

lemma binv_append: "binv s \<Longrightarrow> binv (env_append e s)"
  by (auto simp: binv_def env_append_def Let_def positions_append split: bpc.splits)

lemma binv_complete: "binv s \<Longrightarrow> binv (env_complete s)"
  by (auto simp: binv_def env_complete_def Let_def split: bpc.splits)

lemma binv_resume: "binv s \<Longrightarrow> binv (s\<lparr>rel := event_generator_backup s\<rparr>)"
  by (cases "pc (rel s)")
    (auto simp: binv_def event_generator_backup_def while_loop_def Let_def positions_Suc wire_of_def)

lemma binv_step: "binv s \<Longrightarrow> binv (step_backup s a)"
  by (cases a) (simp_all add: binv_create binv_append binv_complete binv_resume)

lemma binv_run: "binv (run_backup sch)"
  by (induction sch rule: rev_induct) (simp_all add: run_backup_def binv_init binv_step)

lemma step_backup_mono:
  "last_event_index (rel s) \<le> last_event_index (rel (step_backup s a))"
  by (cases a)
    (auto simp: env_create_def env_append_def env_complete_def event_generator_backup_def
      while_loop_def Let_def split: bpc.splits)

lemma run_backup_mono:
  "last_event_index (rel (run_backup sch)) \<le> last_event_index (rel (run_backup (sch @ sch')))"
proof (induction sch' rule: rev_induct)
  case Nil
  then show ?case by simp
next
  case (snoc a sch')
  have "run_backup (sch @ sch' @ [a]) = step_backup (run_backup (sch @ sch')) a"
    by (simp add: run_backup_def)
  then show ?case using snoc step_backup_mono[of "run_backup (sch @ sch')" a] by simp
qed

lemma tagged_list:
  "\<forall>(j, w) \<in> set xs. P j \<and> w = f j \<Longrightarrow> xs = map (\<lambda>j. (j, f j)) (map fst xs)"
  by (induction xs) auto

lemma inv_sent_positions:
  "inv s \<Longrightarrow> sent (rel s) = map (\<lambda>j. (j, wire_of (events (sess s) ! j))) (map fst (sent (rel s)))"
  using tagged_list[of "sent (rel s)" "\<lambda>j. j < length (events (sess s))" "\<lambda>j. wire_of (events (sess s) ! j)"]
  by (simp add: inv_def Let_def)

lemma binv_sent_positions:
  "binv s \<Longrightarrow> sent (rel s) = map (\<lambda>j. (j, wire_of (events (sess s) ! j))) (map fst (sent (rel s)))"
  by (auto simp: binv_def Let_def positions_def comp_def split: bpc.splits)

lemma sorted_wrt_less_distinct: "sorted_wrt (<) (xs :: nat list) \<Longrightarrow> distinct xs"
  by (induction xs) auto

text \<open>
  Claim C9. In both relay loops, for every interleaving of session creation, appends,
  completion and resumptions of the generator: the index of the last forwarded event never
  decreases, it never exceeds the current length of the event log, and no position of the
  log is forwarded twice (the positions of the yields are pairwise distinct, and every
  forwarded message is the image of the log entry at its position).
\<close>

theorem relay_index_invariants:
  "last_event_index (rel (run sch)) \<le> last_event_index (rel (run (sch @ sch')))
   \<and> last_event_index (rel (run sch)) \<le> length (events (sess (run sch)))
   \<and> distinct (map fst (sent (rel (run sch))))
   \<and> sent (rel (run sch)) =
       map (\<lambda>j. (j, wire_of (events (sess (run sch)) ! j))) (map fst (sent (rel (run sch))))
   \<and> last_event_index (rel (run_backup sch)) \<le> last_event_index (rel (run_backup (sch @ sch')))
   \<and> last_event_index (rel (run_backup sch)) \<le> length (events (sess (run_backup sch)))
   \<and> distinct (map fst (sent (rel (run_backup sch))))
   \<and> sent (rel (run_backup sch)) =
       map (\<lambda>j. (j, wire_of (events (sess (run_backup sch)) ! j)))
         (map fst (sent (rel (run_backup sch))))"
proof -
  have i: "inv (run sch)" by (rule inv_run)
  have b: "binv (run_backup sch)" by (rule binv_run)
  have 1: "last_event_index (rel (run sch)) \<le> length (events (sess (run sch)))"
    using i by (simp add: inv_def Let_def)
  have 2: "distinct (map fst (sent (rel (run sch))))"
    using i by (simp add: inv_def Let_def sorted_wrt_less_distinct)
  have 3: "last_event_index (rel (run_backup sch)) \<le> length (events (sess (run_backup sch)))"
    using b by (auto simp: binv_def Let_def split: bpc.splits)
  have 4: "distinct (map fst (sent (rel (run_backup sch))))"
    using b by (auto simp: binv_def Let_def positions_def comp_def split: bpc.splits)
  show ?thesis
    by (intro conjI run_mono run_backup_mono 1 2 3 4 inv_sent_positions[OF i]
        binv_sent_positions[OF b])
qed

section \<open>Exactness of the relay\<close>

lemma positions_wire:
  "m \<le> length evs \<Longrightarrow> map snd (positions evs m) = map wire_of (take m evs)"
  by (auto simp: positions_def intro!: nth_equalityI)

lemma binv_sent_prefix:
  assumes "binv s"
  shows "map snd (sent (rel s)) = map wire_of (take (length (sent (rel s))) (events (sess s)))"
proof (cases "pc (rel s)")
  case BYield
  then have "sent (rel s) = positions (events (sess s)) (Suc (last_event_index (rel s)))"
    and "Suc (last_event_index (rel s)) \<le> length (events (sess s))"
    using assms by (auto simp: binv_def Let_def)
  then show ?thesis using positions_wire[of "Suc (last_event_index (rel s))" "events (sess s)"]
    by (simp add: positions_def)
next
  case BSleep
  then have "sent (rel s) = positions (events (sess s)) (last_event_index (rel s))"
    and "last_event_index (rel s) \<le> length (events (sess s))"
    using assms by (auto simp: binv_def Let_def)
  then show ?thesis using positions_wire[of "last_event_index (rel s)" "events (sess s)"]
    by (simp add: positions_def)
next
  case BFinished
  then have "sent (rel s) = positions (events (sess s)) (last_event_index (rel s))"
    and "last_event_index (rel s) \<le> length (events (sess s))"
    using assms by (auto simp: binv_def Let_def)
  then show ?thesis using positions_wire[of "last_event_index (rel s)" "events (sess s)"]
    by (simp add: positions_def)
qed

lemma binv2_step:
  assumes "binv s" "binv2 s" "is_append a \<longrightarrow> \<not> sealed s"
  shows "binv2 (step_backup s a)"
proof (cases a)
  case Create
  then show ?thesis using assms
    by (auto simp: binv2_def env_create_def new_session_def)
next
  case (Append e)
  then show ?thesis using assms
    by (auto simp: binv2_def env_append_def sealed_def)
next
  case MarkCompleted
  then show ?thesis using assms
    by (auto simp: binv2_def env_complete_def)
next
  case (Resume d)
  then show ?thesis using assms
    by (cases "pc (rel s)")
      (auto simp: binv2_def binv_def event_generator_backup_def while_loop_def Let_def)
qed

lemma sealed_step:
  "sealed s \<Longrightarrow> registered s \<or> status (sess s) = ''active'' \<Longrightarrow> sealed (step_backup s a)"
  by (cases a) (auto simp: sealed_def env_create_def env_append_def env_complete_def)

lemma no_append_orderly: "list_all (\<lambda>a. \<not> is_append a) sch \<Longrightarrow> orderly sch"
proof (induction sch)
  case Nil
  then show ?case by simp
next
  case (Cons a sch)
  then show ?case by (cases a) simp_all
qed

lemma sealed_back:
  "sealed (step_backup s a) \<Longrightarrow> a \<noteq> MarkCompleted \<Longrightarrow> sealed s"
  by (cases a) (auto simp: sealed_def env_create_def env_append_def new_session_def split: if_splits)

lemma binv2_exec:
  "binv s \<Longrightarrow> binv2 s \<Longrightarrow> orderly sch \<Longrightarrow>
   (sealed s \<longrightarrow> list_all (\<lambda>a. \<not> is_append a) sch) \<Longrightarrow>
   binv2 (foldl step_backup s sch)"
proof (induction sch arbitrary: s)
  case Nil
  then show ?case by simp
next
  case (Cons a sch)
  have a_ok: "is_append a \<longrightarrow> \<not> sealed s" using Cons.prems(4) by auto
  have b: "binv (step_backup s a)" using Cons.prems(1) by (rule binv_step)
  have b2: "binv2 (step_backup s a)" using binv2_step[OF Cons.prems(1,2) a_ok] .
  show ?case
  proof (cases "a = MarkCompleted")
    case True
    then have na: "list_all (\<lambda>a. \<not> is_append a) sch" using Cons.prems(3) by simp
    then have "binv2 (foldl step_backup (step_backup s a) sch)"
      using Cons.IH[OF b b2 no_append_orderly[OF na]] by simp
    then show ?thesis by simp
  next
    case False
    then have o: "orderly sch" using Cons.prems(3) by (cases a) simp_all
    have "sealed (step_backup s a) \<longrightarrow> list_all (\<lambda>a. \<not> is_append a) sch"
      using sealed_back[OF _ False] Cons.prems(4) by auto
    then have "binv2 (foldl step_backup (step_backup s a) sch)"
      using Cons.IH[OF b b2 o] by simp
    then show ?thesis by simp
  qed
qed

lemma binv2_run: "orderly sch \<Longrightarrow> binv2 (run_backup sch)"
  unfolding run_backup_def
  by (rule binv2_exec)
    (simp_all add: binv_init, simp_all add: binv2_def init_backup_def new_session_def sealed_def)

lemma finished_all_sent:
  assumes "orderly sch" "pc (rel (run_backup sch)) = BFinished"
  shows "sent (rel (run_backup sch)) =
           positions (events (sess (run_backup sch))) (length (events (sess (run_backup sch))))"
  using binv2_run[OF assms(1)] binv_run[of sch] assms(2)
  by (simp add: binv2_def binv_def Let_def)

lemma binv_exec: "binv s \<Longrightarrow> binv (foldl step_backup s sch)"
  by (induction sch arbitrary: s) (simp_all add: binv_step)

lemma finished_stays:
  "pc (rel t) = BFinished \<Longrightarrow>
   pc (rel (foldl step_backup t (replicate n (Resume d)))) = BFinished
   \<and> sess (foldl step_backup t (replicate n (Resume d))) = sess t"
  by (induction n arbitrary: t) (simp_all add: event_generator_backup_def)

lemma todo_step:
  "binv s \<Longrightarrow> registered s \<Longrightarrow> status (sess s) = ''completed'' \<Longrightarrow>
   pc (rel (step_backup s (Resume d))) \<noteq> BFinished \<Longrightarrow>
   Suc (todo (step_backup s (Resume d))) = todo s"
  by (cases "pc (rel s)")
    (auto simp: todo_def event_generator_backup_def while_loop_def Let_def binv_def
      split: if_splits)

lemma drain_backup:
  "binv s \<Longrightarrow> registered s \<Longrightarrow> status (sess s) = ''completed'' \<Longrightarrow> todo s \<le> k \<Longrightarrow>
   pc (rel (foldl step_backup s (replicate k (Resume d)))) = BFinished
   \<and> sess (foldl step_backup s (replicate k (Resume d))) = sess s"
proof (induction k arbitrary: s)
  case 0
  then have "pc (rel s) = BFinished"
    by (cases "pc (rel s)") (auto simp: todo_def binv_def Let_def)
  then show ?case by simp
next
  case (Suc k)
  let ?s' = "step_backup s (Resume d)"
  have b: "binv ?s'" using Suc.prems(1) by (rule binv_step)
  show ?case
  proof (cases "pc (rel ?s') = BFinished")
    case True
    show ?thesis using finished_stays[OF True, of k d] by simp
  next
    case False
    have "todo ?s' \<le> k" using todo_step[OF Suc.prems(1,2,3) False] Suc.prems(4) by simp
    then show ?thesis using Suc.IH[OF b] Suc.prems(2,3) by simp
  qed
qed

lemma scan_batch_aux:
  "n - i = k \<Longrightarrow> n = length evs \<Longrightarrow>
   scan evs i n =
     (case batch i (drop i evs) of
        [] \<Rightarrow> LoopEnd
      | (j, w) # rest \<Rightarrow> Yield j w (terminal (evs ! j)))"
proof (induction k arbitrary: i)
  case 0
  then show ?case by (simp add: scan.simps[of evs i "length evs"])
next
  case (Suc k)
  then have i: "i < length evs" by arith
  have k: "n - Suc i = k" using Suc.prems(1) by arith
  have d: "drop i evs = evs ! i # drop (Suc i) evs" using i by (simp add: Cons_nth_drop_Suc)
  show ?case
  proof (cases "passed_over (evs ! i)")
    case True
    then have "scan evs i n = scan evs (Suc i) n"
      using i Suc.prems(2) by (subst scan.simps) (auto simp: passed_over_def Let_def)
    then show ?thesis using Suc.IH[OF k Suc.prems(2)] True d by simp
  next
    case False
    then have "scan evs i n = Yield i (wire_of (evs ! i)) (terminal (evs ! i))"
      using i Suc.prems(2)
      by (subst scan.simps) (auto simp: passed_over_def terminal_def wire_of_def Let_def)
    then show ?thesis using False d by simp
  qed
qed

lemmas scan_batch = scan_batch_aux[OF refl refl]

lemma batch_rest:
  "i < length evs \<Longrightarrow> batch i (drop i evs) = (j, w) # rest \<Longrightarrow>
   rest = (if terminal (evs ! j) then [] else batch (Suc j) (drop (Suc j) evs))"
proof (induction "length evs - i" arbitrary: i)
  case 0
  then show ?case by simp
next
  case (Suc k)
  have d: "drop i evs = evs ! i # drop (Suc i) evs" using Suc.prems(1) by (simp add: Cons_nth_drop_Suc)
  show ?case
  proof (cases "passed_over (evs ! i)")
    case True
    then have b: "batch (Suc i) (drop (Suc i) evs) = (j, w) # rest"
      using Suc.prems(2) d by simp
    then have "Suc i < length evs" by (cases "Suc i < length evs") auto
    moreover have "k = length evs - Suc i" using Suc.hyps(2) by arith
    ultimately show ?thesis using Suc.hyps(1) b by blast
  next
    case False
    then show ?thesis using Suc.prems(2) d by (auto split: if_splits)
  qed
qed

lemma idle_stable:
  "pc r = after_poll (sess s) \<Longrightarrow> last_event_index r = length (events (sess s)) \<Longrightarrow>
   foldl step (s\<lparr>rel := r\<rparr>) (replicate n (Resume False)) = s\<lparr>rel := r\<rparr>"
proof (induction n)
  case 0
  then show ?case by simp
next
  case (Suc n)
  have "event_generator False (s\<lparr>rel := r\<rparr>) = r"
    using Suc.prems
    by (auto simp: event_generator_def after_poll_def for_loop_def after_loop_def Let_def
        scan.simps[of _ "length (events (sess s))" "length (events (sess s))"] split: if_splits)
  then show ?case using Suc by simp
qed

lemma poll_batch:
  "length (events (sess s)) - i \<le> k \<Longrightarrow>
   sess (foldl step (s\<lparr>rel := for_loop (sess s) r i (length (events (sess s)))\<rparr>)
          (replicate k (Resume False))) = sess s
   \<and> sent (rel (foldl step (s\<lparr>rel := for_loop (sess s) r i (length (events (sess s)))\<rparr>)
          (replicate k (Resume False)))) = sent r @ batch i (drop i (events (sess s)))
   \<and> last_event_index (rel (foldl step (s\<lparr>rel := for_loop (sess s) r i (length (events (sess s)))\<rparr>)
          (replicate k (Resume False)))) = length (events (sess s))
   \<and> pc (rel (foldl step (s\<lparr>rel := for_loop (sess s) r i (length (events (sess s)))\<rparr>)
          (replicate k (Resume False)))) = after_poll (sess s)"
proof (induction k arbitrary: i r)
  case 0
  then have "batch i (drop i (events (sess s))) = []" by simp
  then show ?case
    by (simp add: for_loop_def scan_batch after_loop_def after_poll_def)
next
  case (Suc k)
  let ?evs = "events (sess s)"
  show ?case
  proof (cases "batch i (drop i ?evs)")
    case Nil
    then have f: "for_loop (sess s) r i (length ?evs) = after_loop (sess s) r"
      by (simp add: for_loop_def scan_batch)
    have "foldl step (s\<lparr>rel := after_loop (sess s) r\<rparr>) (replicate (Suc k) (Resume False))
          = s\<lparr>rel := after_loop (sess s) r\<rparr>"
      by (rule idle_stable) (simp_all add: after_loop_def after_poll_def)
    then show ?thesis using Nil unfolding f by (simp add: after_loop_def after_poll_def)
  next
    case (Cons jw rest)
    obtain j w where jw: "jw = (j, w)" by (cases jw)
    let ?r1 = "r\<lparr>pc := AtYield j (length ?evs) (terminal (?evs ! j)), sent := sent r @ [(j, w)]\<rparr>"
    have f: "for_loop (sess s) r i (length ?evs) = ?r1"
      using Cons jw by (simp add: for_loop_def scan_batch)
    have "scan ?evs i (length ?evs) = Yield j w (terminal (?evs ! j))"
      using Cons jw by (simp add: scan_batch)
    from scan_Yield[OF this] have ij: "i \<le> j" "j < length ?evs" by auto
    have rest: "rest = (if terminal (?evs ! j) then [] else batch (Suc j) (drop (Suc j) ?evs))"
      using batch_rest[of i ?evs j w rest] Cons jw ij by simp
    show ?thesis
    proof (cases "terminal (?evs ! j)")
      case True
      have g: "event_generator False (s\<lparr>rel := ?r1\<rparr>) = after_loop (sess s) ?r1"
        using True by (simp add: event_generator_def)
      have "foldl step (s\<lparr>rel := after_loop (sess s) ?r1\<rparr>) (replicate k (Resume False))
            = s\<lparr>rel := after_loop (sess s) ?r1\<rparr>"
        by (rule idle_stable) (simp_all add: after_loop_def after_poll_def)
      then show ?thesis using g True rest Cons jw unfolding f
        by (simp add: after_loop_def after_poll_def)
    next
      case False
      have g: "event_generator False (s\<lparr>rel := ?r1\<rparr>)
               = for_loop (sess s) ?r1 (Suc j) (length ?evs)"
        using False by (simp add: event_generator_def)
      have "length ?evs - Suc j \<le> k" using Suc.prems ij by arith
      from Suc.IH[OF this, of ?r1] show ?thesis using g False rest Cons jw unfolding f
        by simp
    qed
  qed
qed

lemma poll_from_idle:
  assumes "pc (rel s) = AtSleep" "registered s"
    "length (events (sess s)) - last_event_index (rel s) < k"
  shows "sess (foldl step s (replicate k (Resume False))) = sess s
      \<and> sent (rel (foldl step s (replicate k (Resume False))))
          = sent (rel s) @ batch (last_event_index (rel s))
                                   (drop (last_event_index (rel s)) (events (sess s)))
      \<and> last_event_index (rel (foldl step s (replicate k (Resume False))))
          = length (events (sess s))
      \<and> pc (rel (foldl step s (replicate k (Resume False)))) = after_poll (sess s)"
proof -
  obtain k' where k: "k = Suc k'" using assms(3) by (cases k) auto
  have 1: "step s (Resume False)
       = s\<lparr>rel := for_loop (sess s) (rel s) (last_event_index (rel s)) (length (events (sess s)))\<rparr>"
    using assms(1,2) by (simp add: event_generator_def Let_def)
  have "length (events (sess s)) - last_event_index (rel s) \<le> k'" using assms(3) k by arith
  from poll_batch[OF this, of "rel s"] show ?thesis using 1 k by simp
qed

lemma orderly_resumes: "orderly sch \<Longrightarrow> orderly (sch @ replicate k (Resume d))"
proof (induction sch rule: orderly.induct)
  case 1
  then show ?case by (simp add: no_append_orderly list_all_iff)
next
  case (2 sch)
  then show ?case by (auto simp: list_all_iff)
qed simp_all

lemma todo_bound: "todo s \<le> Suc (length (events (sess s)))"
  by (cases "pc (rel s)") (simp_all add: todo_def)

lemma run_backup_append: "run_backup (sch @ sch') = foldl step_backup (run_backup sch) sch'"
  by (simp add: run_backup_def)

lemma run_append: "run (sch @ sch') = foldl step (run sch) sch'"
  by (simp add: run_def)

lemma backup_drained:
  assumes "orderly sch" "registered (run_backup sch)"
    "status (sess (run_backup sch)) = ''completed''"
    "length (events (sess (run_backup sch))) < k"
  shows "pc (rel (run_backup (sch @ replicate k (Resume d)))) = BFinished
     \<and> map snd (sent (rel (run_backup (sch @ replicate k (Resume d)))))
         = map wire_of (events (sess (run_backup sch)))"
proof -
  let ?s = "run_backup sch"
  have t: "todo ?s \<le> k" using todo_bound[of ?s] assms(4) by arith
  from drain_backup[OF binv_run assms(2,3) t, of d]
  have fin: "pc (rel (run_backup (sch @ replicate k (Resume d)))) = BFinished"
    and same: "sess (run_backup (sch @ replicate k (Resume d))) = sess ?s"
    by (simp_all add: run_backup_append)
  have "sent (rel (run_backup (sch @ replicate k (Resume d))))
        = positions (events (sess ?s)) (length (events (sess ?s)))"
    using finished_all_sent[OF orderly_resumes[OF assms(1)] fin] same by simp
  then show ?thesis using fin by (simp add: positions_wire)
qed


lemma main_poll:
  assumes "pc (rel (run sch)) = AtSleep" "registered (run sch)"
    "length (events (sess (run sch))) - last_event_index (rel (run sch)) < k"
  shows "sent (rel (run (sch @ replicate k (Resume False))))
          = sent (rel (run sch)) @ batch (last_event_index (rel (run sch)))
              (drop (last_event_index (rel (run sch))) (events (sess (run sch))))
      \<and> last_event_index (rel (run (sch @ replicate k (Resume False))))
          = length (events (sess (run sch)))
      \<and> pc (rel (run (sch @ replicate k (Resume False)))) = after_poll (sess (run sch))"
  using poll_from_idle[OF assms] by (simp add: run_append)

text \<open>
  Claim C1, amended. In the generator of \<^verbatim>\<open>main_backup.py\<close>, for every interleaving of
  appends and resumptions, the forwarded messages are the images of an initial segment of
  the log, in append order; when no event is appended after completion and the generator
  has stopped, they are the images of all \<open>N\<close> appended events, each once and in append
  order; and once the session is completed, more than \<open>N\<close> resumptions make it stop.
  In the generator of \<^verbatim>\<open>main.py\<close>, a poll that starts from the idle generator and
  during which nothing is appended forwards, in append order, the pending entries that
  have non-empty data and a known type, up to and including the first \<^verbatim>\<open>done\<close> or
  \<^verbatim>\<open>error\<close> entry, and then counts the whole log as relayed.
\<close>

theorem relay_forwards_log:
  "map snd (sent (rel (run_backup sch)))
     = map wire_of (take (length (sent (rel (run_backup sch)))) (events (sess (run_backup sch))))
   \<and> (orderly sch \<and> pc (rel (run_backup sch)) = BFinished \<longrightarrow>
        map snd (sent (rel (run_backup sch))) = map wire_of (events (sess (run_backup sch))))
   \<and> (orderly sch \<and> registered (run_backup sch)
        \<and> status (sess (run_backup sch)) = ''completed''
        \<and> length (events (sess (run_backup sch))) < k \<longrightarrow>
        pc (rel (run_backup (sch @ replicate k (Resume d)))) = BFinished
        \<and> map snd (sent (rel (run_backup (sch @ replicate k (Resume d)))))
            = map wire_of (events (sess (run_backup sch))))
   \<and> (pc (rel (run sch')) = AtSleep \<and> registered (run sch')
        \<and> length (events (sess (run sch'))) - last_event_index (rel (run sch')) < k' \<longrightarrow>
        sent (rel (run (sch' @ replicate k' (Resume False))))
          = sent (rel (run sch')) @ batch (last_event_index (rel (run sch')))
              (drop (last_event_index (rel (run sch'))) (events (sess (run sch'))))
        \<and> last_event_index (rel (run (sch' @ replicate k' (Resume False))))
            = length (events (sess (run sch')))
        \<and> pc (rel (run (sch' @ replicate k' (Resume False)))) = after_poll (sess (run sch')))"
proof -
  have 1: "map snd (sent (rel (run_backup sch)))
     = map wire_of (take (length (sent (rel (run_backup sch)))) (events (sess (run_backup sch))))"
    by (rule binv_sent_prefix[OF binv_run])
  have 2: "map snd (sent (rel (run_backup sch))) = map wire_of (events (sess (run_backup sch)))"
    if "orderly sch" "pc (rel (run_backup sch)) = BFinished"
    using finished_all_sent[OF that] by (simp add: positions_wire)
  show ?thesis
    using 1 2 backup_drained[of sch k d] main_poll[of sch' k'] by blast
qed

lemma interleaved_facts:
  "orderly schedule_interleaved"
  "registered (run_backup schedule_interleaved)"
  "status (sess (run_backup schedule_interleaved)) = ''completed''"
  "events (sess (run_backup schedule_interleaved)) = [ev_thinking, ev_thinking, ev_error, ev_done]"
  by code_simp+

lemma batch_facts:
  "pc (rel (run schedule_batch)) = AtSleep"
  "registered (run schedule_batch)"
  "last_event_index (rel (run schedule_batch)) = 0"
  "sent (rel (run schedule_batch)) = []"
  "events (sess (run schedule_batch)) = [ev_thinking, ev_error, ev_done]"
  "batch 0 [ev_thinking, ev_error, ev_done] = [(0, wire_of ev_thinking), (1, wire_of ev_error)]"
  by code_simp+

theorem relay_forwards_log_witness:
  "orderly schedule_interleaved
   \<and> registered (run_backup schedule_interleaved)
   \<and> status (sess (run_backup schedule_interleaved)) = ''completed''
   \<and> pc (rel (run_backup (schedule_interleaved @ replicate 5 (Resume False)))) = BFinished
   \<and> map snd (sent (rel (run_backup (schedule_interleaved @ replicate 5 (Resume False)))))
       = [wire_of ev_thinking, wire_of ev_thinking, wire_of ev_error, wire_of ev_done]
   \<and> pc (rel (run schedule_batch)) = AtSleep
   \<and> registered (run schedule_batch)
   \<and> sent (rel (run (schedule_batch @ replicate 4 (Resume False))))
       = [(0, wire_of ev_thinking), (1, wire_of ev_error)]
   \<and> last_event_index (rel (run (schedule_batch @ replicate 4 (Resume False)))) = 3"
  using relay_forwards_log[of schedule_interleaved 5 False schedule_batch 4]
    interleaved_facts batch_facts
  by simp

text \<open>
  Claim C1, as stated, fails for the generator of \<^verbatim>\<open>main.py\<close>. With the progress, the
  error and the links in the log, the poll forwards the error, breaks, and counts the links
  as relayed: three events, two messages. And an event appended while the generator is
  suspended at a \<^verbatim>\<open>yield\<close> lies beyond the bound of the running \<^verbatim>\<open>for\<close> loop and
  before the index the loop leaves behind: four events, three messages.
\<close>

theorem relay_drops_events:
  "pc (rel (run schedule_error_then_done)) = Finished
   \<and> events (sess (run schedule_error_then_done)) = [ev_thinking, ev_error, ev_done]
   \<and> map snd (sent (rel (run schedule_error_then_done))) = [wire_of ev_thinking, wire_of ev_error]
   \<and> pc (rel (run schedule_append_during_yield)) = Finished
   \<and> events (sess (run schedule_append_during_yield))
       = [ev_thinking, ev_thinking, ev_thinking, ev_done]
   \<and> map snd (sent (rel (run schedule_append_during_yield)))
       = [wire_of ev_thinking, wire_of ev_thinking, wire_of ev_done]"
  by code_simp

section \<open>Properties of web search\<close>

lemma web_search_returns: "\<exists>results. web_search http query k = Inr results"
  by (simp add: web_search_def split: sum.splits)

lemma web_search_o3_returns: "\<exists>results. web_search_o3 http query k = Inr results"
  by (simp add: web_search_o3_def split: sum.splits)

lemma search_body_http_failure:
  "http query num = ClientError e \<or> http query num = StatusError e \<or> http query num = DecodeError e
     \<Longrightarrow> search_body url_key http query num = Inl e"
  by (auto simp: search_body_def)

text \<open>
  Claim C10. \<^verbatim>\<open>web_search\<close> never raises: for every query, every \<open>k\<close> and
  every outcome of the HTTP request it returns a list of records, in \<^verbatim>\<open>ai_utils.py\<close> and
  in \<^verbatim>\<open>main_o3.py\<close>. When the client, the status check or the decoding raises, or any
  other exception occurs in the body, the list is the single record whose title is
  \<^verbatim>\<open>"Search Error: "\<close> followed by the message and whose address and snippet are the empty
  string; the address of a record is stored under the key \<^verbatim>\<open>"url"\<close> in \<^verbatim>\<open>ai_utils.py\<close> and
  under the key \<^verbatim>\<open>"link"\<close> in \<^verbatim>\<open>main_o3.py\<close>.
\<close>

theorem web_search_total:
  "(\<exists>results. web_search http query k = Inr results)
   \<and> (\<exists>results. web_search_o3 http query k = Inr results)
   \<and> (http query (min k 10) = ClientError e \<or> http query (min k 10) = StatusError e
        \<or> http query (min k 10) = DecodeError e \<or> search_body ''url'' http query (min k 10) = Inl e
      \<longrightarrow> web_search http query k =
            Inr [[(''title'', JStr (''Search Error: '' @ e)), (''url'', JStr []),
                  (''snippet'', JStr [])]])
   \<and> (http query k = ClientError e \<or> http query k = StatusError e
        \<or> http query k = DecodeError e \<or> search_body ''link'' http query k = Inl e
      \<longrightarrow> web_search_o3 http query k =
            Inr [[(''title'', JStr (''Search Error: '' @ e)), (''link'', JStr []),
                  (''snippet'', JStr [])]])"
proof -
  have a: "web_search http query k = Inr [search_error ''url'' e]"
    if "search_body ''url'' http query (min k 10) = Inl e"
    using that by (simp add: web_search_def)
  have b: "web_search_o3 http query k = Inr [search_error ''link'' e]"
    if "search_body ''link'' http query k = Inl e"
    using that by (simp add: web_search_o3_def)
  show ?thesis
    using a b search_body_http_failure[of http query "min k 10" e "''url''"]
      search_body_http_failure[of http query k e "''link''"]
      web_search_returns[of http query k] web_search_o3_returns[of http query k]
    by (auto simp: search_error_def)
qed

theorem web_search_total_witness:
  "http_refused ''First Step Act'' (min 5 10) = ClientError ''All connection attempts failed''
   \<and> web_search http_refused ''First Step Act'' 5 =
       Inr [[(''title'', JStr ''Search Error: All connection attempts failed''),
             (''url'', JStr []), (''snippet'', JStr [])]]
   \<and> web_search_o3 http_refused ''First Step Act'' 5 =
       Inr [[(''title'', JStr ''Search Error: All connection attempts failed''),
             (''link'', JStr []), (''snippet'', JStr [])]]"
  using web_search_total[of http_refused "''First Step Act''" 5 "''All connection attempts failed''"]
  by (simp add: http_refused_def)

section \<open>Properties of the field parser\<close>

lemma field_loop_find:
  "field_loop info f ps text =
     (case List.find (\<lambda>p. re_search True p text \<noteq> None) ps of
        None \<Rightarrow> info
      | Some p \<Rightarrow> (case re_search True p text of None \<Rightarrow> info | Some g \<Rightarrow> setattr info f (strip g)))"
  by (induction ps) (auto split: option.splits)

lemma getattr_setattr:
  "f' \<in> set field_names \<Longrightarrow> getattr (setattr info f v) f' = (if f = f' then v else getattr info f')"
  unfolding field_names_def
  by (auto simp: getattr_def setattr_def)

lemma getattr_field_loop:
  "f' \<in> set field_names \<Longrightarrow>
   getattr (field_loop info f ps text) f' =
     (if f = f' then
        (case List.find (\<lambda>p. re_search True p text \<noteq> None) ps of
           None \<Rightarrow> getattr info f'
         | Some p \<Rightarrow> (case re_search True p text of None \<Rightarrow> getattr info f' | Some g \<Rightarrow> strip g))
      else getattr info f')"
  by (simp add: field_loop_find getattr_setattr split: option.splits)

lemma getattr_items_loop:
  "f' \<in> set field_names \<Longrightarrow> distinct (map fst table) \<Longrightarrow>
   getattr (items_loop info table text) f' =
     (case map_of table f' of
        None \<Rightarrow> getattr info f'
      | Some ps \<Rightarrow>
          (case List.find (\<lambda>p. re_search True p text \<noteq> None) ps of
             None \<Rightarrow> getattr info f'
           | Some p \<Rightarrow> (case re_search True p text of None \<Rightarrow> getattr info f' | Some g \<Rightarrow> strip g)))"
proof (induction table arbitrary: info)
  case Nil
  then show ?case by simp
next
  case (Cons a table)
  obtain f ps where a: "a = (f, ps)" by (cases a)
  show ?case
  proof (cases "f = f'")
    case True
    then have "map_of table f' = None" using Cons.prems(2) a
      by (simp add: map_of_eq_None_iff)
    then show ?thesis using Cons a True by (simp add: getattr_field_loop)
  next
    case False
    then show ?thesis using Cons a by (simp add: getattr_field_loop split: option.splits)
  qed
qed

lemma getattr_init: "f \<in> set field_names \<Longrightarrow> getattr DefendantInfo_init f = ''UNKNOWN''"
  unfolding field_names_def by (auto simp: getattr_def DefendantInfo_init_def)

lemma getattr_parse:
  "f \<in> set field_names \<Longrightarrow> distinct (map fst table) \<Longrightarrow>
   getattr (items_loop DefendantInfo_init table text) f =
     first_match_or_unknown (field_patterns_of table f) text"
  by (simp add: getattr_items_loop getattr_init first_match_or_unknown_def field_patterns_of_def
      split: option.splits)

lemma distinct_tables:
  "distinct (map fst patterns)" "distinct (map fst patterns_backup)"
  "distinct (map fst patterns_enhanced)"
  by (simp_all add: patterns_def patterns_backup_def patterns_enhanced_def)

lemma attr_names:
  "name info = getattr info ''name''"
  "case_number info = getattr info ''case_number''"
  "district info = getattr info ''district''"
  "sentence_months info = getattr info ''sentence_months''"
  "months_served info = getattr info ''months_served''"
  "credits_lost info = getattr info ''credits_lost''"
  "original_release_date info = getattr info ''original_release_date''"
  "new_release_date info = getattr info ''new_release_date''"
  by (simp_all add: getattr_def)

lemma field_names_mem:
  "''name'' \<in> set field_names" "''case_number'' \<in> set field_names"
  "''district'' \<in> set field_names" "''sentence_months'' \<in> set field_names"
  "''months_served'' \<in> set field_names" "''credits_lost'' \<in> set field_names"
  "''original_release_date'' \<in> set field_names" "''new_release_date'' \<in> set field_names"
  by (simp_all add: field_names_def)

text \<open>
  Claim C6. For every input text, \<^verbatim>\<open>parse_defendant_info\<close> (of \<^verbatim>\<open>main.py\<close> and of
  \<^verbatim>\<open>main_enhanced.py\<close>) sets each of the eight fields to the stripped group of the first
  pattern, in the order of the field's list, that matches anywhere in the text without
  regard to case, or leaves the sentinel \<^verbatim>\<open>"UNKNOWN"\<close> when no pattern of the field
  matches (in \<^verbatim>\<open>main.py\<close> five fields have no pattern at all). The value of a field
  depends on the text and on the field's own list only.
\<close>

theorem parse_first_match_wins:
  "name (parse_defendant_info text) = first_match_or_unknown (field_patterns_of patterns ''name'') text
   \<and> case_number (parse_defendant_info text) =
       first_match_or_unknown (field_patterns_of patterns ''case_number'') text
   \<and> district (parse_defendant_info text) =
       first_match_or_unknown (field_patterns_of patterns ''district'') text
   \<and> sentence_months (parse_defendant_info text) =
       first_match_or_unknown (field_patterns_of patterns ''sentence_months'') text
   \<and> months_served (parse_defendant_info text) =
       first_match_or_unknown (field_patterns_of patterns ''months_served'') text
   \<and> credits_lost (parse_defendant_info text) =
       first_match_or_unknown (field_patterns_of patterns ''credits_lost'') text
   \<and> original_release_date (parse_defendant_info text) =
       first_match_or_unknown (field_patterns_of patterns ''original_release_date'') text
   \<and> new_release_date (parse_defendant_info text) =
       first_match_or_unknown (field_patterns_of patterns ''new_release_date'') text
   \<and> name (parse_defendant_info_enhanced text) =
       first_match_or_unknown (field_patterns_of patterns_enhanced ''name'') text
   \<and> case_number (parse_defendant_info_enhanced text) =
       first_match_or_unknown (field_patterns_of patterns_enhanced ''case_number'') text
   \<and> district (parse_defendant_info_enhanced text) =
       first_match_or_unknown (field_patterns_of patterns_enhanced ''district'') text
   \<and> sentence_months (parse_defendant_info_enhanced text) =
       first_match_or_unknown (field_patterns_of patterns_enhanced ''sentence_months'') text
   \<and> months_served (parse_defendant_info_enhanced text) =
       first_match_or_unknown (field_patterns_of patterns_enhanced ''months_served'') text
   \<and> credits_lost (parse_defendant_info_enhanced text) =
       first_match_or_unknown (field_patterns_of patterns_enhanced ''credits_lost'') text
   \<and> original_release_date (parse_defendant_info_enhanced text) =
       first_match_or_unknown (field_patterns_of patterns_enhanced ''original_release_date'') text
   \<and> new_release_date (parse_defendant_info_enhanced text) =
       first_match_or_unknown (field_patterns_of patterns_enhanced ''new_release_date'') text"
  unfolding attr_names parse_defendant_info_def parse_defendant_info_enhanced_def
  by (intro conjI getattr_parse field_names_mem distinct_tables)

lemma items_loop_no_match:
  "list_all (\<lambda>p. re_search True p text = None) (concat (map snd table)) \<Longrightarrow>
   items_loop info table text = info"
proof (induction table arbitrary: info)
  case Nil
  then show ?case by simp
next
  case (Cons a table)
  obtain f ps where a: "a = (f, ps)" by (cases a)
  have "List.find (\<lambda>p. re_search True p text \<noteq> None) ps = None"
    using Cons.prems a by (auto simp: find_None_iff list_all_iff)
  then have "field_loop info f ps text = info"
    by (simp add: field_loop_find)
  then show ?case using Cons a by simp
qed

lemma match_case_no:
  "match_at True case_labelled (''Case No: 1:20-cr-00456-DEF'' @ post) = Some ''1:20-cr-00456''"
  by (simp add: match_at_def case_labelled_def case_no_def Plus_def ws_def digit_def
      dot_or_colon_def class_match_def isspace_def whitespace_def lower_def upper_def digits_def
      ascii_uppercase_def ascii_lowercase_def)

lemma re_search_skip:
  "list_all (\<lambda>i. match_at ic p (drop i (pre @ s)) = None) [0..<length pre] \<Longrightarrow>
   re_search ic p (pre @ s) = re_search ic p s"
proof (induction pre)
  case Nil
  then show ?case by simp
next
  case (Cons c pre)
  have all: "\<forall>i<Suc (length pre). match_at ic p (drop i ((c # pre) @ s)) = None"
    using Cons.prems by (auto simp: list_all_iff less_Suc_eq)
  from all have 0: "match_at ic p (c # pre @ s) = None" by force
  have "\<forall>i<length pre. match_at ic p (drop i (pre @ s)) = None"
  proof (intro allI impI)
    fix i assume "i < length pre"
    then show "match_at ic p (drop i (pre @ s)) = None"
      using all[rule_format, of "Suc i"] by simp
  qed
  then have "re_search ic p (pre @ s) = re_search ic p s"
    using Cons.IH by (simp add: list_all_iff)
  then show ?case using 0 by simp
qed

lemma re_search_case_no:
  assumes "list_all (\<lambda>i. match_at True case_labelled
              (drop i (pre @ ''Case No: 1:20-cr-00456-DEF'' @ post)) = None) [0..<length pre]"
  shows "re_search True case_labelled (pre @ ''Case No: 1:20-cr-00456-DEF'' @ post)
           = Some ''1:20-cr-00456''"
proof -
  have "re_search True case_labelled (''Case No: 1:20-cr-00456-DEF'' @ post) = Some ''1:20-cr-00456''"
    using match_case_no[of post] by simp
  then show ?thesis using re_search_skip[OF assms] by simp
qed

lemma strip_case_no: "strip ''1:20-cr-00456'' = ''1:20-cr-00456''"
  by code_simp

lemma no_field_in_text:
  "list_all (\<lambda>p. re_search True p text_without_fields = None) (concat (map snd patterns_backup))"
  by code_simp

lemma no_field_in_text_main:
  "list_all (\<lambda>p. re_search True p text_without_fields = None) (concat (map snd patterns))"
  by code_simp

text \<open>
  Claim C7. When no pattern of any field matches the text, the record returned by
  \<^verbatim>\<open>parse_defendant_info\<close> (of \<^verbatim>\<open>main.py\<close> and of \<^verbatim>\<open>main_backup.py\<close>) has the
  sentinel \<^verbatim>\<open>"UNKNOWN"\<close> in each of its eight fields.
\<close>

theorem no_match_all_unknown:
  "(list_all (\<lambda>p. re_search True p text = None) (concat (map snd patterns)) \<longrightarrow>
      parse_defendant_info text =
        \<lparr>name = ''UNKNOWN'', case_number = ''UNKNOWN'', district = ''UNKNOWN'',
         sentence_months = ''UNKNOWN'', months_served = ''UNKNOWN'', credits_lost = ''UNKNOWN'',
         original_release_date = ''UNKNOWN'', new_release_date = ''UNKNOWN''\<rparr>)
   \<and> (list_all (\<lambda>p. re_search True p text = None) (concat (map snd patterns_backup)) \<longrightarrow>
      parse_defendant_info_backup text =
        \<lparr>name = ''UNKNOWN'', case_number = ''UNKNOWN'', district = ''UNKNOWN'',
         sentence_months = ''UNKNOWN'', months_served = ''UNKNOWN'', credits_lost = ''UNKNOWN'',
         original_release_date = ''UNKNOWN'', new_release_date = ''UNKNOWN''\<rparr>)"
  using items_loop_no_match[of "text" patterns DefendantInfo_init]
    items_loop_no_match[of "text" patterns_backup DefendantInfo_init]
  by (simp add: parse_defendant_info_def parse_defendant_info_backup_def DefendantInfo_init_def)

theorem no_match_all_unknown_witness:
  "list_all (\<lambda>p. re_search True p text_without_fields = None) (concat (map snd patterns))
   \<and> list_all (\<lambda>p. re_search True p text_without_fields = None)
        (concat (map snd patterns_backup))
   \<and> parse_defendant_info text_without_fields =
        \<lparr>name = ''UNKNOWN'', case_number = ''UNKNOWN'', district = ''UNKNOWN'',
         sentence_months = ''UNKNOWN'', months_served = ''UNKNOWN'', credits_lost = ''UNKNOWN'',
         original_release_date = ''UNKNOWN'', new_release_date = ''UNKNOWN''\<rparr>
   \<and> parse_defendant_info_backup text_without_fields =
        \<lparr>name = ''UNKNOWN'', case_number = ''UNKNOWN'', district = ''UNKNOWN'',
         sentence_months = ''UNKNOWN'', months_served = ''UNKNOWN'', credits_lost = ''UNKNOWN'',
         original_release_date = ''UNKNOWN'', new_release_date = ''UNKNOWN''\<rparr>"
  using no_match_all_unknown[of text_without_fields] no_field_in_text no_field_in_text_main
  by simp

lemma case_number_first_match:
  "case_number (parse_defendant_info text) = first_match_or_unknown [case_labelled, case_bare] text"
  "case_number (parse_defendant_info_enhanced text) =
     first_match_or_unknown [case_labelled, case_criminal, case_bare] text"
  unfolding attr_names parse_defendant_info_def parse_defendant_info_enhanced_def
  by (simp_all add: getattr_parse field_names_mem distinct_tables)
     (simp_all add: field_patterns_of_def patterns_def patterns_enhanced_def)

lemma first_match_first_pattern:
  "re_search True p text = Some g \<Longrightarrow> first_match_or_unknown (p # ps) text = strip g"
  by (simp add: first_match_or_unknown_def)

text \<open>
  Claim C4, as stated, fails on the caption itself: the group of the case-number patterns
  ends with the last digit before \<^verbatim>\<open>-DEF\<close>.
\<close>

theorem case_number_drops_suffix:
  "case_number (parse_defendant_info ''Case No: 1:20-cr-00456-DEF'') = ''1:20-cr-00456''
   \<and> case_number (parse_defendant_info_enhanced ''Case No: 1:20-cr-00456-DEF'') = ''1:20-cr-00456''
   \<and> case_number (parse_defendant_info ''Case No: 1:20-cr-00456-DEF'') \<noteq> ''1:20-cr-00456-DEF''"
proof -
  have "re_search True case_labelled ''Case No: 1:20-cr-00456-DEF'' = Some ''1:20-cr-00456''"
    using re_search_case_no[of "[]" "[]"] by simp
  then show ?thesis
    by (simp add: case_number_first_match first_match_first_pattern strip_case_no)
qed

text \<open>
  Claim C4, amended. For any text that contains \<^verbatim>\<open>Case No: 1:20-cr-00456-DEF\<close> and in
  which the labelled case-number pattern matches at no position before that substring,
  \<^verbatim>\<open>parse_defendant_info\<close> (of \<^verbatim>\<open>main.py\<close> and of \<^verbatim>\<open>main_enhanced.py\<close>) sets
  \<^verbatim>\<open>case_number\<close> to \<^verbatim>\<open>1:20-cr-00456\<close>, whatever follows the substring.
\<close>

theorem case_number_of_caption:
  assumes "list_all (\<lambda>i. match_at True case_labelled
              (drop i (pre @ ''Case No: 1:20-cr-00456-DEF'' @ post)) = None) [0..<length pre]"
  shows "case_number (parse_defendant_info (pre @ ''Case No: 1:20-cr-00456-DEF'' @ post))
           = ''1:20-cr-00456''
         \<and> case_number (parse_defendant_info_enhanced (pre @ ''Case No: 1:20-cr-00456-DEF'' @ post))
           = ''1:20-cr-00456''"
  using re_search_case_no[OF assms]
  by (simp add: case_number_first_match first_match_first_pattern strip_case_no)

lemma no_earlier_match:
  "list_all (\<lambda>i. match_at True case_labelled
       (drop i (''v.    '' @ ''Case No: 1:20-cr-00456-DEF'' @ [CHR 0x0A] @ ''MICHAEL JOHNSON,'')) = None)
     [0..<length ''v.    '']"
  by code_simp

theorem case_number_of_caption_witness:
  "list_all (\<lambda>i. match_at True case_labelled
       (drop i (''v.    '' @ ''Case No: 1:20-cr-00456-DEF'' @ [CHR 0x0A] @ ''MICHAEL JOHNSON,'')) = None)
     [0..<length ''v.    '']
   \<and> case_number (parse_defendant_info text_with_case_no) = ''1:20-cr-00456''
   \<and> case_number (parse_defendant_info_enhanced text_with_case_no) = ''1:20-cr-00456''"
  using case_number_of_caption[of "''v.    ''" "[CHR 0x0A] @ ''MICHAEL JOHNSON,''"] no_earlier_match
  by (simp add: text_with_case_no_def)

section \<open>Properties of the document splitter\<close>

lemma lit_match_iff: "lit_match False w s = Some s' \<longleftrightarrow> s = w @ s'"
proof (induction w arbitrary: s)
  case Nil
  then show ?case by auto
next
  case (Cons l w)
  then show ?case by (cases s) auto
qed

lemma rmatch_Lit:
  "rmatch False (Lit w) s = (if take (length w) s = w then [drop (length w) s] else [])"
proof (cases "lit_match False w s")
  case None
  then have "take (length w) s \<noteq> w"
    using lit_match_iff[of w s "drop (length w) s"]
    by (metis append_take_drop_id option.distinct(1))
  then show ?thesis using None by simp
next
  case (Some s')
  then have "s = w @ s'" by (simp add: lit_match_iff)
  then show ?thesis using Some by simp
qed

lemma rmatch_LazyStar_Dot:
  "rmatch ic (LazyStar Dot) s = map (\<lambda>k. drop k s) [0..<Suc (length s)]"
proof (induction s)
  case Nil
  then show ?case by simp
next
  case (Cons c s)
  have "map (\<lambda>k. drop k (c # s)) [0..<Suc (length (c # s))]
        = (c # s) # map (\<lambda>k. drop k s) [0..<Suc (length s)]"
    by (simp add: upt_rec[of 0] map_Suc_upt[symmetric] del: upt_Suc)
  then show ?case using Cons by simp
qed

text \<open>The candidates of the lazy group, tried from the shortest, filtered by the end mark.\<close>

lemma first_end_mark:
  "(case concat (map (\<lambda>s2. map (\<lambda>s3. take (length (u @ t) - length s2) (u @ t))
                               (rmatch False (Lit e) s2))
                    (map (\<lambda>k. drop k t) [0..<Suc (length t)])) of
      [] \<Rightarrow> None | g # gs \<Rightarrow> Some g)
   = map_option (\<lambda>q. take (length u + q) (u @ t)) (find_sub e t)"
proof (induction t arbitrary: u)
  case Nil
  then show ?case by (auto simp: rmatch_Lit simp del: rmatch.simps)
next
  case (Cons c t)
  have split: "map (\<lambda>k. drop k (c # t)) [0..<Suc (length (c # t))]
        = (c # t) # map (\<lambda>k. drop k t) [0..<Suc (length t)]"
    by (simp add: upt_rec[of 0] map_Suc_upt[symmetric] del: upt_Suc)
  show ?case
  proof (cases "take (length e) (c # t) = e")
    case True
    then show ?thesis unfolding split by (simp add: rmatch_Lit del: rmatch.simps)
  next
    case False
    have "(u @ [c]) @ t = u @ c # t" by simp
    then show ?thesis unfolding split using False Cons.IH[of "u @ [c]"]
      by (simp add: rmatch_Lit option.map_comp comp_def del: rmatch.simps)
  qed
qed

lemma match_at_delimited:
  "match_at False (delimited s e) x =
     (if take (length s) x = s
      then map_option (\<lambda>q. take q (drop (length s) x)) (find_sub e (drop (length s) x))
      else None)"
  using first_end_mark[of "[]" "drop (length s) x" e]
  by (simp add: match_at_def delimited_def rmatch_Lit rmatch_LazyStar_Dot del: upt_Suc rmatch.simps)

lemma find_sub_drop_None: "find_sub e t = None \<Longrightarrow> find_sub e (drop k t) = None"
proof (induction t arbitrary: k)
  case Nil
  then show ?case by simp
next
  case (Cons c t)
  then show ?case by (cases k) (auto split: if_splits)
qed

lemma re_search_delimited:
  "s \<noteq> [] \<Longrightarrow> re_search False (delimited s e) x = delimited_body s e x"
proof (induction x)
  case Nil
  then show ?case by (auto simp: match_at_delimited delimited_body_def)
next
  case (Cons c x)
  obtain n where n: "length s = Suc n" using Cons.prems by (cases s) auto
  show ?case
  proof (cases "take (length s) (c # x) = s")
    case True
    show ?thesis
    proof (cases "find_sub e (drop (length s) (c # x))")
      case None
      then have none: "find_sub e (drop n x) = None" using n by simp
      have "delimited_body s e x = None"
      proof (cases "find_sub s x")
        case None
        then show ?thesis by (simp add: delimited_body_def)
      next
        case (Some p)
        have "drop (p + length s) x = drop (Suc p) (drop n x)" using n by (simp add: add.commute)
        then show ?thesis using Some find_sub_drop_None[OF none, of "Suc p"]
          by (simp add: delimited_body_def)
      qed
      then show ?thesis using True None Cons
        by (simp add: match_at_delimited delimited_body_def)
    next
      case (Some q)
      then show ?thesis using True by (simp add: match_at_delimited delimited_body_def)
    qed
  next
    case False
    then show ?thesis using Cons
      by (auto simp: match_at_delimited delimited_body_def split: option.splits)
  qed
qed

lemma extract_document_body:
  "s \<noteq> [] \<Longrightarrow>
   extract_document s e placeholder x =
     (case delimited_body s e x of Some body \<Rightarrow> strip body | None \<Rightarrow> placeholder)"
  by (simp add: extract_document_def re_search_delimited)

lemma delimited_body_well_formed:
  "find_sub s (a @ s @ body @ e @ b) = Some (length a) \<Longrightarrow>
   find_sub e (body @ e @ b) = Some (length body) \<Longrightarrow>
   delimited_body s e (a @ s @ body @ e @ b) = Some body"
  by (simp add: delimited_body_def)

lemma marks_nonempty:
  "MOTION_START \<noteq> []" "MEMO_START \<noteq> []" "DECL_START \<noteq> []"
  by (simp_all add: MOTION_START_def MEMO_START_def DECL_START_def)

lemma split_documents_bodies:
  "motion (split_documents x) =
     (case delimited_body MOTION_START MOTION_END x of
        Some body \<Rightarrow> strip body | None \<Rightarrow> ''Motion could not be generated with O3 reasoning'')"
  "memo (split_documents x) =
     (case delimited_body MEMO_START MEMO_END x of
        Some body \<Rightarrow> strip body | None \<Rightarrow> ''Memo could not be generated with O3 reasoning'')"
  "decl (split_documents x) =
     (case delimited_body DECL_START DECL_END x of
        Some body \<Rightarrow> strip body | None \<Rightarrow> ''Declaration could not be generated with O3 reasoning'')"
  by (simp_all add: split_documents_def extract_document_body marks_nonempty)

text \<open>
  Claim C5. The splitter of \<^verbatim>\<open>generate_with_o3_research\<close> (\<^verbatim>\<open>main.py\<close>,
  \<^verbatim>\<open>main_o3.py\<close>) is total: for every response each of the three documents is
  either the whitespace-trimmed text between the first occurrence of its start mark and the
  first occurrence of its end mark after it, or, when the start mark is missing or no end
  mark follows it, the placeholder text of the document. In particular, for a response
  \<open>a @ START @ body @ END @ b\<close> in which the marks do not occur earlier, the document is
  the trimmed \<open>body\<close>, verbatim.
\<close>

theorem splitter_extracts_bodies:
  "motion (split_documents x) =
     (case delimited_body MOTION_START MOTION_END x of
        Some body \<Rightarrow> strip body | None \<Rightarrow> ''Motion could not be generated with O3 reasoning'')
   \<and> memo (split_documents x) =
     (case delimited_body MEMO_START MEMO_END x of
        Some body \<Rightarrow> strip body | None \<Rightarrow> ''Memo could not be generated with O3 reasoning'')
   \<and> decl (split_documents x) =
     (case delimited_body DECL_START DECL_END x of
        Some body \<Rightarrow> strip body | None \<Rightarrow> ''Declaration could not be generated with O3 reasoning'')
   \<and> (find_sub MOTION_START (a1 @ MOTION_START @ body1 @ MOTION_END @ b1) = Some (length a1)
        \<and> find_sub MOTION_END (body1 @ MOTION_END @ b1) = Some (length body1)
      \<longrightarrow> motion (split_documents (a1 @ MOTION_START @ body1 @ MOTION_END @ b1)) = strip body1)
   \<and> (find_sub MEMO_START (a2 @ MEMO_START @ body2 @ MEMO_END @ b2) = Some (length a2)
        \<and> find_sub MEMO_END (body2 @ MEMO_END @ b2) = Some (length body2)
      \<longrightarrow> memo (split_documents (a2 @ MEMO_START @ body2 @ MEMO_END @ b2)) = strip body2)
   \<and> (find_sub DECL_START (a3 @ DECL_START @ body3 @ DECL_END @ b3) = Some (length a3)
        \<and> find_sub DECL_END (body3 @ DECL_END @ b3) = Some (length body3)
      \<longrightarrow> decl (split_documents (a3 @ DECL_START @ body3 @ DECL_END @ b3)) = strip body3)"
  by (simp add: split_documents_bodies delimited_body_well_formed)

lemma response_ok_found:
  "delimited_body MOTION_START MOTION_END response_ok = Some ([CHR 0x0A] @ ''MOTION FOR RELEASE'' @ [CHR 0x0A])"
  "delimited_body MEMO_START MEMO_END response_ok = Some ([CHR 0x0A] @ ''I. INTRODUCTION'' @ [CHR 0x0A])"
  "delimited_body DECL_START DECL_END response_ok = Some ([CHR 0x0A] @ ''I declare.'' @ [CHR 0x0A])"
  by code_simp+

lemma response_broken_not_found:
  "delimited_body MOTION_START MOTION_END response_broken = None"
  "delimited_body MEMO_START MEMO_END response_broken = None"
  "delimited_body DECL_START DECL_END response_broken = None"
  by code_simp+

lemma strip_bodies:
  "strip ([CHR 0x0A] @ ''MOTION FOR RELEASE'' @ [CHR 0x0A]) = ''MOTION FOR RELEASE''"
  "strip ([CHR 0x0A] @ ''I. INTRODUCTION'' @ [CHR 0x0A]) = ''I. INTRODUCTION''"
  "strip ([CHR 0x0A] @ ''I declare.'' @ [CHR 0x0A]) = ''I declare.''"
  by code_simp+

lemma motion_well_formed:
  "find_sub MOTION_START (''Here are the documents.'' @ MOTION_START @ ''  A  '' @ MOTION_END @ ''.'')
     = Some (length ''Here are the documents.'')"
  "find_sub MOTION_END (''  A  '' @ MOTION_END @ ''.'') = Some (length ''  A  '')"
  "strip ''  A  '' = ''A''"
  by code_simp+

theorem splitter_extracts_bodies_witness:
  "motion (split_documents response_ok) = ''MOTION FOR RELEASE''
   \<and> memo (split_documents response_ok) = ''I. INTRODUCTION''
   \<and> decl (split_documents response_ok) = ''I declare.''
   \<and> motion (split_documents response_broken) = ''Motion could not be generated with O3 reasoning''
   \<and> memo (split_documents response_broken) = ''Memo could not be generated with O3 reasoning''
   \<and> decl (split_documents response_broken) = ''Declaration could not be generated with O3 reasoning''
   \<and> motion (split_documents (''Here are the documents.'' @ MOTION_START @ ''  A  '' @ MOTION_END @ ''.'')) = ''A''"
  using splitter_extracts_bodies[of response_ok "''Here are the documents.''" "''  A  ''" "''.''"]
    splitter_extracts_bodies[of response_broken]
    response_ok_found response_broken_not_found strip_bodies motion_well_formed
  by simp

section \<open>Properties of the orchestrator\<close>

lemma consume_in_progress:
  "consume strict cs failure = (effs, fc, tcs, raised) \<Longrightarrow> list_all in_progress effs"
proof (induction strict cs failure arbitrary: effs fc tcs raised rule: consume.induct)
  case (1 strict failure)
  then show ?case by simp
next
  case (2 strict cs failure)
  then show ?case by (auto split: if_splits)
next
  case (3 strict d cs failure)
  show ?case
  proof (cases "d_finish d")
    case True
    then show ?thesis using "3.prems" by (auto simp: thinking_o3_def Let_def split: if_splits)
  next
    case False
    obtain effs' fc' tcs' raised' where c: "consume strict cs failure = (effs', fc', tcs', raised')"
      by (cases "consume strict cs failure") auto
    have "list_all in_progress effs'" using "3.IH"[OF refl False c] .
    then show ?thesis using "3.prems" False c
      by (auto simp: thinking_o3_def Let_def split: if_splits)
  qed
qed

lemma consume_no_request:
  "consume strict cs failure = (effs, fc, tcs, raised) \<Longrightarrow> requests effs = []"
proof (induction strict cs failure arbitrary: effs fc tcs raised rule: consume.induct)
  case (1 strict failure)
  then show ?case by simp
next
  case (2 strict cs failure)
  then show ?case by (auto split: if_splits)
next
  case (3 strict d cs failure)
  show ?case
  proof (cases "d_finish d")
    case True
    then show ?thesis using "3.prems" by (auto simp: thinking_o3_def Let_def split: if_splits)
  next
    case False
    obtain effs' fc' tcs' raised' where c: "consume strict cs failure = (effs', fc', tcs', raised')"
      by (cases "consume strict cs failure") auto
    have "requests effs' = []" using "3.IH"[OF refl False c] .
    then show ?thesis using "3.prems" False c
      by (auto simp: thinking_o3_def Let_def split: if_splits)
  qed
qed

lemma run_tools_in_progress:
  "run_tools search tcs = (effs, msgs, raised) \<Longrightarrow> list_all in_progress effs \<and> requests effs = []"
proof (induction tcs arbitrary: effs msgs raised)
  case Nil
  then show ?case by simp
next
  case (Cons tc tcs)
  obtain effs' msgs' raised' where r: "run_tools search tcs = (effs', msgs', raised')"
    by (cases "run_tools search tcs") auto
  from Cons.IH[OF r] have ih: "list_all in_progress effs' \<and> requests effs' = []" .
  show ?case using Cons.prems r ih
    by (auto simp: search_event_o3_def split: option.splits if_splits arguments.splits sum.splits)
qed

lemma requests_append: "requests (a @ b) = requests a @ requests b"
  by (induction a rule: requests.induct) simp_all

lemma pts_head: "primary_then_secondary (m # ms) \<Longrightarrow> m = ''o3''"
  by (cases ms) auto

lemma pts_o3: "primary_then_secondary rs \<Longrightarrow> primary_then_secondary (''o3'' # rs)"
  by (cases rs) (auto dest: pts_head)

lemma good_run_prefix:
  "list_all in_progress a \<Longrightarrow> requests a = [] \<Longrightarrow> good_run fb b \<Longrightarrow> good_run fb (a @ b)"
  by (simp add: good_run_def requests_append)

lemma good_run_quiet: "list_all in_progress a \<Longrightarrow> requests a = [] \<Longrightarrow> good_run fb a"
  by (simp add: good_run_def)

lemma good_run_o3: "good_run fb effs \<Longrightarrow> good_run fb (ModelRequest ''o3'' # effs)"
  by (auto simp: good_run_def pts_o3)

lemma good_run_o3_gpt:
  "good_run True effs \<Longrightarrow> good_run True (ModelRequest ''o3'' # ModelRequest ''gpt-4o'' # effs)"
  by (auto simp: good_run_def)

lemma after_reply_good:
  assumes loop: "\<And>ms effs en ms'. research_loop fb st se replies ms = (effs, en, ms') \<Longrightarrow> good_run fb effs"
    and "after_reply fb st se response replies ms = (effs, en, ms')"
  shows "good_run fb effs"
proof -
  obtain e0 fc tcs raised where c: "consume st (chunks response) (broken response) = (e0, fc, tcs, raised)"
    by (cases "consume st (chunks response) (broken response)") auto
  have e0: "list_all in_progress e0" "requests e0 = []"
    using consume_in_progress[OF c] consume_no_request[OF c] by simp_all
  show ?thesis
  proof (cases raised)
    case (Some e)
    then show ?thesis using assms(2) c e0 by (auto simp: good_run_quiet)
  next
    case None
    let ?m1 = "ms @ [Assistant (if fc = [] then None else Some fc) tcs]"
    show ?thesis
    proof (cases "tcs = []")
      case False
      obtain e1 msgs r1 where t: "run_tools se tcs = (e1, msgs, r1)"
        by (cases "run_tools se tcs") auto
      have e1: "list_all in_progress e1" "requests e1 = []"
        using run_tools_in_progress[OF t] by simp_all
      show ?thesis
      proof (cases r1)
        case (Some e)
        have "good_run fb (e0 @ e1)" using e0 e1 by (simp add: good_run_quiet requests_append)
        then show ?thesis using assms(2) c None False t Some by (simp add: Let_def)
      next
        case N2: None
        obtain e2 en2 ms2 where l: "research_loop fb st se replies (?m1 @ msgs) = (e2, en2, ms2)"
          by (cases "research_loop fb st se replies (?m1 @ msgs)") auto
        have "good_run fb (e0 @ e1 @ e2)"
          using loop[OF l] e0 e1 by (simp add: good_run_prefix)
        then show ?thesis using assms(2) c None False t N2 l by (simp add: Let_def)
      qed
    next
      case True
      obtain e2 en2 ms2 where l: "research_loop fb st se replies ?m1 = (e2, en2, ms2)"
        by (cases "research_loop fb st se replies ?m1") auto
      have g: "good_run fb (e0 @ e2)" using loop[OF l] e0 by (simp add: good_run_prefix)
      have g0: "good_run fb e0" using e0 by (simp add: good_run_quiet)
      show ?thesis using assms(2) c None True l g g0
        by (auto simp: Let_def split: if_splits)
    qed
  qed
qed

lemma research_loop_good:
  "research_loop fb st se replies ms = (effs, en, ms') \<Longrightarrow> good_run fb effs"
proof (induction replies arbitrary: ms effs en ms' rule: length_induct)
  case (1 replies)
  have ih: "\<And>rs ms effs en ms'. length rs < length replies \<Longrightarrow>
              research_loop fb st se rs ms = (effs, en, ms') \<Longrightarrow> good_run fb effs"
    using "1.IH" by blast
  show ?case
  proof (cases replies)
    case Nil
    then show ?thesis using "1.prems" by (auto simp: good_run_def)
  next
    case (Cons r rest)
    show ?thesis
    proof (cases r)
      case (Inr response)
      obtain e1 en1 ms1 where a: "after_reply fb st se response rest ms = (e1, en1, ms1)"
        by (cases "after_reply fb st se response rest ms") auto
      have "\<And>ms effs en ms'. research_loop fb st se rest ms = (effs, en, ms') \<Longrightarrow> good_run fb effs"
        using ih[of rest] Cons by simp
      then have "good_run fb e1" using a by (rule after_reply_good)
      then show ?thesis using "1.prems" Cons Inr a by (auto simp: good_run_o3)
    next
      case (Inl e)
      show ?thesis
      proof (cases fb)
        case False
        then show ?thesis using "1.prems" Cons Inl by (auto simp: good_run_def)
      next
        case True
        show ?thesis
        proof (cases rest)
          case Nil
          then show ?thesis using "1.prems" Cons Inl True by (auto simp: good_run_def)
        next
          case C2: (Cons r2 rest2)
          show ?thesis
          proof (cases r2)
            case I2: (Inl e')
            then show ?thesis using "1.prems" Cons Inl True C2 by (auto simp: good_run_def)
          next
            case R2: (Inr response)
            obtain e1 en1 ms1 where a: "after_reply fb st se response rest2 ms = (e1, en1, ms1)"
              by (cases "after_reply fb st se response rest2 ms") auto
            have "\<And>ms effs en ms'. research_loop fb st se rest2 ms = (effs, en, ms') \<Longrightarrow> good_run fb effs"
              using ih[of rest2] Cons C2 by simp
            then have "good_run fb e1" using a by (rule after_reply_good)
            then show ?thesis using "1.prems" Cons Inl True C2 R2 a
              by (auto simp: good_run_o3_gpt)
          qed
        qed
      qed
    qed
  qed
qed

lemma lifecycle_Cons:
  "lifecycle_ok (x # states y effs) = (step_ok x y \<and> lifecycle_ok (states y effs))"
  by (cases effs) simp_all

lemma active_step:
  "status s = ''active'' \<Longrightarrow> eff \<noteq> SetCompleted \<Longrightarrow>
   \<exists>s'. apply_effect (Some s) eff = Some s' \<and> status s' = ''active'' \<and> step_ok (Some s) (Some s')"
  by (cases eff) auto

lemma lifecycle_active:
  "status s = ''active'' \<Longrightarrow> SetCompleted \<notin> set effs \<Longrightarrow>
   lifecycle_ok (states (Some s) effs) \<and> lifecycle_ok (states (Some s) (effs @ [SetCompleted]))"
proof (induction effs arbitrary: s)
  case Nil
  then show ?case by simp
next
  case (Cons eff effs)
  then obtain s' where s': "apply_effect (Some s) eff = Some s'" "status s' = ''active''"
    "step_ok (Some s) (Some s')"
    using active_step[of s eff] by auto
  show ?case using Cons.IH[OF s'(2)] Cons.prems(2) s' by (simp add: lifecycle_Cons)
qed

lemma lifecycle_fresh:
  "SetCompleted \<notin> set effs \<Longrightarrow>
   lifecycle_ok (states None (EnsureSession # effs))
   \<and> lifecycle_ok (states None (EnsureSession # effs @ [SetCompleted]))"
  using lifecycle_active[of new_session effs]
  by (simp add: lifecycle_Cons new_session_def)

lemma orderly_quiet:
  "SetCompleted \<notin> set effs \<Longrightarrow>
   orderly (actions_of effs) \<and> orderly (actions_of (effs @ [SetCompleted]))"
  by (induction effs rule: actions_of.induct) simp_all

lemma in_progress_quiet: "list_all in_progress effs \<Longrightarrow> SetCompleted \<notin> set effs"
  by (induction effs) auto



lemma search_loop_in_progress:
  "search_loop search queries = (effs, raised) \<Longrightarrow> list_all in_progress effs"
proof (induction queries arbitrary: effs raised)
  case Nil
  then show ?case by simp
next
  case (Cons q queries)
  obtain effs' raised' where r: "search_loop search queries = (effs', raised')"
    by (cases "search_loop search queries") auto
  show ?case using Cons.prems Cons.IH[OF r] r
    by (auto simp: Let_def thinking_def search_event_def split: sum.splits)
qed

lemma try_block_in_progress:
  "try_block search info = (effs, r) \<Longrightarrow> list_all in_progress effs"
proof -
  assume a: "try_block search info = (effs, r)"
  obtain e1 raised where s: "search_loop search (search_queries info) = (e1, raised)"
    by (cases "search_loop search (search_queries info)") auto
  have "list_all in_progress (map (\<lambda>chunk. thinking (chunk @ '' '')) (split_ws (thinking_text info)))"
    by (simp add: list_all_iff thinking_def)
  then show ?thesis using a s search_loop_in_progress[OF s]
    by (auto simp: try_block_def Let_def thinking_def split: option.splits)
qed


lemma render_all_quiet: "SetCompleted \<notin> set (render_all docs)"
  by (simp add: render_all_def)

lemma generate_with_shape:
  "\<exists>body. generate_with search info sid = EnsureSession # body @ [SetCompleted]
          \<and> SetCompleted \<notin> set body"
proof -
  obtain effs r where t: "try_block search info = (effs, r)"
    by (cases "try_block search info") auto
  have q: "SetCompleted \<notin> set effs"
    using try_block_in_progress[OF t] by (rule in_progress_quiet)
  show ?thesis
  proof (cases r)
    case (Inl e)
    let ?body = "effs @ [generation_error e] @ render_all (split_documents (fallback_content info))
                 @ [AppendEvent (done_event sid)]"
    have "generate_with search info sid = EnsureSession # ?body @ [SetCompleted]"
      using t Inl by (simp add: generate_with_def finish_def)
    moreover have "SetCompleted \<notin> set ?body"
      using q by (simp add: render_all_quiet generation_error_def)
    ultimately show ?thesis by blast
  next
    case (Inr content)
    let ?body = "effs @ render_all (split_documents content) @ [AppendEvent (done_event sid)]"
    have "generate_with search info sid = EnsureSession # ?body @ [SetCompleted]"
      using t Inr by (simp add: generate_with_def finish_def)
    moreover have "SetCompleted \<notin> set ?body"
      using q by (simp add: render_all_quiet)
    ultimately show ?thesis by blast
  qed
qed

lemma generate_loop_shape:
  assumes "fin = finish_o3 \<or> fin = finish_backup"
  shows "\<exists>effs. list_all in_progress effs \<and> good_run fb effs \<and>
     ((\<exists>content. generate_loop fb st se fin ms0 replies sid
                   = (EnsureSession # effs @ fin sid content, Completed))
      \<or> (\<exists>e. generate_loop fb st se fin ms0 replies sid
                   = (EnsureSession # effs @ [reasoning_error e], Aborted))
      \<or> generate_loop fb st se fin ms0 replies sid = (EnsureSession # effs, Unfinished))"
proof -
  obtain effs en ms where l: "research_loop fb st se replies ms0 = (effs, en, ms)"
    by (cases "research_loop fb st se replies ms0") auto
  have g: "good_run fb effs" using research_loop_good[OF l] .
  then have p: "list_all in_progress effs" by (simp add: good_run_def)
  show ?thesis using l g p by (cases en) (auto simp: generate_loop_def)
qed

lemma generate_loop_lifecycle:
  assumes "fin = finish_o3 \<or> fin = finish_backup"
  shows "lifecycle_ok (states None (fst (generate_loop fb st se fin ms0 replies sid)))
     \<and> orderly (actions_of (fst (generate_loop fb st se fin ms0 replies sid)))"
proof -
  from generate_loop_shape[OF assms, of fb st se ms0 replies sid]
  obtain effs where p: "list_all in_progress effs"
    and c: "(\<exists>content. generate_loop fb st se fin ms0 replies sid
                   = (EnsureSession # effs @ fin sid content, Completed))
      \<or> (\<exists>e. generate_loop fb st se fin ms0 replies sid
                   = (EnsureSession # effs @ [reasoning_error e], Aborted))
      \<or> generate_loop fb st se fin ms0 replies sid = (EnsureSession # effs, Unfinished)"
    by blast
  have q: "SetCompleted \<notin> set effs" using p by (rule in_progress_quiet)
  from c show ?thesis
  proof (elim disjE exE)
    fix content
    assume g: "generate_loop fb st se fin ms0 replies sid
                 = (EnsureSession # effs @ fin sid content, Completed)"
    obtain docs archive where f: "fin sid content
        = render_all docs @ [AppendEvent (done_event_o3 archive sid), SetCompleted]"
      using assms by (auto simp: finish_o3_def finish_backup_def)
    let ?body = "effs @ render_all docs @ [AppendEvent (done_event_o3 archive sid)]"
    have t: "fst (generate_loop fb st se fin ms0 replies sid) = EnsureSession # ?body @ [SetCompleted]"
      using g f by simp
    have qb: "SetCompleted \<notin> set ?body" using q by (simp add: render_all_quiet)
    show ?thesis unfolding t using lifecycle_fresh[OF qb] orderly_quiet[OF qb] by simp
  next
    fix e
    assume g: "generate_loop fb st se fin ms0 replies sid
                 = (EnsureSession # effs @ [reasoning_error e], Aborted)"
    have qb: "SetCompleted \<notin> set (effs @ [reasoning_error e])"
      using q by (simp add: reasoning_error_def)
    show ?thesis using g lifecycle_fresh[OF qb] orderly_quiet[OF qb] by simp
  next
    assume g: "generate_loop fb st se fin ms0 replies sid = (EnsureSession # effs, Unfinished)"
    show ?thesis using g lifecycle_fresh[OF q] orderly_quiet[OF q] by simp
  qed
qed

text \<open>
  Claim C2. A session enters the store when the orchestrator runs for its identifier, which
  the upload handler draws afresh (\<^verbatim>\<open>uuid.uuid4()\<close>), so the entry is absent when the
  run starts. Over every run of \<^verbatim>\<open>generate_with_o3_research\<close>, finished or not, of
  \<^verbatim>\<open>main.py\<close> (whatever the search does) and of \<^verbatim>\<open>main_o3.py\<close> (whatever the provider
  replies): each state of the entry extends the log of the state before it, the status
  goes from active to completed at most once, and after that the entry does not change any
  more: no event is appended to a completed session.
\<close>

theorem session_lifecycle:
  "lifecycle_ok (states None (generate_with search info session_id))
   \<and> orderly (actions_of (generate_with search info session_id))
   \<and> lifecycle_ok (states None (generate_with_o3_research http info session_id))
   \<and> orderly (actions_of (generate_with_o3_research http info session_id))
   \<and> lifecycle_ok (states None (fst (generate_with_o3_research_o3 http info replies session_id)))
   \<and> orderly (actions_of (fst (generate_with_o3_research_o3 http info replies session_id)))"
proof -
  have m: "lifecycle_ok (states None (generate_with s i session_id))
           \<and> orderly (actions_of (generate_with s i session_id))" for s i
  proof -
    obtain body where b: "generate_with s i session_id = EnsureSession # body @ [SetCompleted]"
      "SetCompleted \<notin> set body"
      using generate_with_shape by blast
    show ?thesis unfolding b(1) using lifecycle_fresh[OF b(2)] orderly_quiet[OF b(2)] by simp
  qed
  show ?thesis
    using m[of search info] m[of "web_search http" info]
      generate_loop_lifecycle[of finish_o3 False False "web_search_o3 http"
        "initial_messages_o3 info" replies session_id]
    by (simp add: generate_with_o3_research_def generate_with_o3_research_o3_def)
qed

lemma web_search_callable: "\<exists>rs. web_search http q k = Inr rs"
  by (rule web_search_returns)








lemma broken_stream:
  "chunks response = [] \<Longrightarrow> broken response = Some e \<Longrightarrow>
   after_reply fb st se response replies ms = ([], Threw e, ms)"
  by simp












end
